theory Spec2Isabelle
  imports Complex_Main "HOL-Library.Word"
begin

section \<open>JavaScript strings\<close>

text \<open>
  A JavaScript string is a sequence of 16-bit code units.  String literals of the source
  are written with \<open>js\<close>, which maps every character of an ASCII literal to its code unit.
\<close>

type_synonym code_unit = "16 word"
type_synonym jsstring = "code_unit list"

definition js :: "string \<Rightarrow> jsstring" where
  "js s = map of_char s"

text \<open>
  The character classes of ECMAScript: \<open>LineTerminator\<close> (LF, CR, LS, PS), \<open>WhiteSpace\<close>
  (TAB, VT, FF, ZWNBSP and the space separators), the class \<open>\s\<close> (both together, which is
  also what \<open>String.prototype.trim\<close> removes), and the class \<open>\d\<close>.
\<close>

definition is_line_terminator :: "code_unit \<Rightarrow> bool" where
  "is_line_terminator c = (c \<in> set [0x0A, 0x0D, 0x2028, 0x2029])"

definition is_white_space :: "code_unit \<Rightarrow> bool" where
  "is_white_space c = (c \<in> set [0x09, 0x0B, 0x0C, 0x20, 0xA0, 0x1680, 0x2000, 0x2001, 0x2002,
     0x2003, 0x2004, 0x2005, 0x2006, 0x2007, 0x2008, 0x2009, 0x200A, 0x202F, 0x205F, 0x3000,
     0xFEFF])"

definition is_space :: "code_unit \<Rightarrow> bool" where
  "is_space c = (is_white_space c \<or> is_line_terminator c)"

definition is_digit :: "code_unit \<Rightarrow> bool" where
  "is_digit c = (0x30 \<le> c \<and> c \<le> 0x39)"

text \<open>
  \<open>Canonicalize\<close> of a pattern without the \<open>u\<close> flag compares upper-cased code units,
  and never maps a code unit from 128 on to one below 128.  Every pattern character of this
  program is ASCII, so only the action on ASCII decides a comparison: the lower-case letters
  go to upper case, and the model leaves every other code unit alone.
\<close>

definition canonicalize :: "code_unit \<Rightarrow> code_unit" where
  "canonicalize c = (if 0x61 \<le> c \<and> c \<le> 0x7A then c - 0x20 else c)"

definition toLowerCase :: "jsstring \<Rightarrow> jsstring" where
  "toLowerCase s = map (\<lambda>c. if 0x41 \<le> c \<and> c \<le> 0x5A then c + 0x20 else c) s"

definition trimStart :: "jsstring \<Rightarrow> jsstring" where
  "trimStart s = dropWhile is_space s"

definition trim :: "jsstring \<Rightarrow> jsstring" where
  "trim s = rev (dropWhile is_space (rev (dropWhile is_space s)))"

text \<open>\<open>text.split('\n')\<close>: the pieces between line feeds; the empty string gives one empty line.\<close>

fun split_lines :: "jsstring \<Rightarrow> jsstring list" where
  "split_lines [] = [[]]"
| "split_lines (c # cs) =
     (if c = 0x0A then [] # split_lines cs
      else (case split_lines cs of
              [] \<Rightarrow> [[c]]
            | l # ls \<Rightarrow> (c # l) # ls))"

section \<open>Regular expressions\<close>

text \<open>
  The patterns of the source are regular-expression literals.  They are kept as syntax trees
  and run by a backtracking matcher in continuation-passing style, as the ECMAScript
  specification defines pattern matching: a quantifier is greedy and gives characters back
  one at a time when the rest of the pattern fails, an alternative is tried left to right,
  a group that took no part in the match stays undefined (\<open>None\<close>).  The quantifiers \<open>*\<close> and
  \<open>+\<close> of the source only ever stand behind a single character class; \<open>?\<close> stands behind groups.
\<close>

datatype atom = Space | Digit | AnyChar | Chr code_unit

datatype regex =
    Eps
  | Bol
  | Eol
  | Atom atom
  | Star atom
  | Plus atom
  | Lit jsstring
  | Seq regex regex
  | Alt regex regex
  | Opt regex
  | Cap nat regex

fun seq :: "regex list \<Rightarrow> regex" where
  "seq [] = Eps"
| "seq (r # rs) = Seq r (seq rs)"

type_synonym captures = "nat \<Rightarrow> jsstring option"
type_synonym mstate = "jsstring \<times> captures"

fun atom_match :: "bool \<Rightarrow> atom \<Rightarrow> code_unit \<Rightarrow> bool" where
  "atom_match ic Space c = is_space c"
| "atom_match ic Digit c = is_digit c"
| "atom_match ic AnyChar c = (\<not> is_line_terminator c)"
| "atom_match ic (Chr a) c = (if ic then canonicalize a = canonicalize c else a = c)"

fun star :: "(code_unit \<Rightarrow> bool) \<Rightarrow> (jsstring \<Rightarrow> 'r option) \<Rightarrow> jsstring \<Rightarrow> 'r option" where
  "star p k [] = k []"
| "star p k (c # cs) =
     (if p c then (case star p k cs of Some r \<Rightarrow> Some r | None \<Rightarrow> k (c # cs))
      else k (c # cs))"

fun lit :: "bool \<Rightarrow> jsstring \<Rightarrow> jsstring \<Rightarrow> jsstring option" where
  "lit ic [] s = Some s"
| "lit ic (a # as) [] = None"
| "lit ic (a # as) (c # cs) = (if atom_match ic (Chr a) c then lit ic as cs else None)"

text \<open>
  \<open>rmatch ic n r k (s, caps)\<close> matches \<open>r\<close> at the front of the remaining input \<open>s\<close> and hands
  what is left to the continuation \<open>k\<close>; \<open>ic\<close> is the flag \<open>i\<close> and \<open>n\<close> the length of the whole
  input (for \<open>^\<close>; no pattern of the source has the flag \<open>m\<close>, so \<open>^\<close> and \<open>$\<close> are the ends of the
  input).  An iteration of \<open>?\<close> that consumes nothing is rejected, as in RepeatMatcher.
\<close>

fun rmatch :: "bool \<Rightarrow> nat \<Rightarrow> regex \<Rightarrow> (mstate \<Rightarrow> mstate option) \<Rightarrow> mstate \<Rightarrow> mstate option" where
  "rmatch ic n Eps k st = k st"
| "rmatch ic n Bol k st = (if length (fst st) = n then k st else None)"
| "rmatch ic n Eol k st = (if fst st = [] then k st else None)"
| "rmatch ic n (Atom a) k st =
     (case fst st of
        [] \<Rightarrow> None
      | c # cs \<Rightarrow> if atom_match ic a c then k (cs, snd st) else None)"
| "rmatch ic n (Star a) k st = star (atom_match ic a) (\<lambda>s'. k (s', snd st)) (fst st)"
| "rmatch ic n (Plus a) k st =
     (case fst st of
        [] \<Rightarrow> None
      | c # cs \<Rightarrow> if atom_match ic a c then star (atom_match ic a) (\<lambda>s'. k (s', snd st)) cs
                else None)"
| "rmatch ic n (Lit l) k st =
     (case lit ic l (fst st) of None \<Rightarrow> None | Some s' \<Rightarrow> k (s', snd st))"
| "rmatch ic n (Seq r1 r2) k st = rmatch ic n r1 (\<lambda>st'. rmatch ic n r2 k st') st"
| "rmatch ic n (Alt r1 r2) k st =
     (case rmatch ic n r1 k st of Some res \<Rightarrow> Some res | None \<Rightarrow> rmatch ic n r2 k st)"
| "rmatch ic n (Opt r) k st =
     (case rmatch ic n r (\<lambda>st'. if length (fst st') = length (fst st) then None else k st') st of
        Some res \<Rightarrow> Some res
      | None \<Rightarrow> k st)"
| "rmatch ic n (Cap g r) k st =
     rmatch ic n r
       (\<lambda>st'. k (fst st', (snd st')(g \<mapsto> take (length (fst st) - length (fst st')) (fst st))))
       st"

text \<open>
  A regular-expression object: its pattern and its flag \<open>i\<close>.  None of the source's patterns
  is global or sticky, so \<open>lastIndex\<close> stays 0 and every call starts at the front.
\<close>

record regexp =
  pattern :: regex
  ignoreCase :: bool

record match_result =
  index :: nat
  matched :: jsstring
  caps :: captures

text \<open>
  RegExpBuiltinExec: the start positions are tried from the left, up to and including the
  end of the input; the first position with a match wins.
\<close>

fun search :: "regexp \<Rightarrow> nat \<Rightarrow> nat \<Rightarrow> jsstring \<Rightarrow> match_result option" where
  "search re n i s =
     (case rmatch (ignoreCase re) n (pattern re) Some (s, \<lambda>g. None) of
        Some st' \<Rightarrow>
          Some \<lparr>index = i, matched = take (length s - length (fst st')) s, caps = snd st'\<rparr>
      | None \<Rightarrow> (case s of [] \<Rightarrow> None | c # cs \<Rightarrow> search re n (Suc i) cs))"

definition regexp_exec :: "regexp \<Rightarrow> jsstring \<Rightarrow> match_result option" where
  "regexp_exec re s = search re (length s) 0 s"

text \<open>\<open>str.match(re)\<close>, \<open>re.test(str)\<close> and \<open>str.replace(re, '')\<close> for a pattern without \<open>g\<close>.\<close>

definition string_match :: "jsstring \<Rightarrow> regexp \<Rightarrow> match_result option" where
  "string_match s re = regexp_exec re s"

definition regexp_test :: "regexp \<Rightarrow> jsstring \<Rightarrow> bool" where
  "regexp_test re s = (regexp_exec re s \<noteq> None)"

definition replace_empty :: "jsstring \<Rightarrow> regexp \<Rightarrow> jsstring" where
  "replace_empty s re =
     (case regexp_exec re s of
        None \<Rightarrow> s
      | Some r \<Rightarrow> take (index r) s @ drop (index r + length (matched r)) s)"

section \<open>Numbers\<close>

text \<open>
  A JavaScript number is a double.  The model keeps the exact value: a natural number for what
  \<open>parseInt\<close> reads (doubles are exact below \<open>2^53\<close>) and a rational for what \<open>parseFloat\<close>
  reads and for its product with 1000; \<open>NaN\<close> is a value of its own.  The program hands both
  functions the text of a group of digits, so the models read an unsigned decimal literal at
  the front of the string and give \<open>NaN\<close> when there is none.
\<close>

datatype 'a number = NaN | Num 'a

definition digit_value :: "code_unit \<Rightarrow> nat" where
  "digit_value c = unat c - 48"

definition digits_value :: "jsstring \<Rightarrow> nat" where
  "digits_value ds = foldl (\<lambda>v c. 10 * v + digit_value c) 0 ds"

definition parseInt10 :: "jsstring \<Rightarrow> nat number" where
  "parseInt10 s =
     (let ds = takeWhile is_digit s
      in if ds = [] then NaN else Num (digits_value ds))"

definition parseFloat :: "jsstring \<Rightarrow> rat number" where
  "parseFloat s =
     (let ip = takeWhile is_digit s; r = dropWhile is_digit s
      in if ip = [] then NaN
         else (case r of
                 [] \<Rightarrow> Num (of_nat (digits_value ip))
               | c # fs \<Rightarrow>
                   if c = 0x2E
                   then (let fp = takeWhile is_digit fs
                         in Num (of_nat (digits_value ip) + of_nat (digits_value fp) / 10 ^ length fp))
                   else Num (of_nat (digits_value ip))))"

text \<open>\<open>a <= b\<close> on numbers: false as soon as one side is \<open>NaN\<close>.\<close>

fun number_le :: "nat number \<Rightarrow> nat number \<Rightarrow> bool" where
  "number_le (Num a) (Num b) = (a \<le> b)"
| "number_le a b = False"

fun number_times :: "rat number \<Rightarrow> rat \<Rightarrow> rat number" where
  "number_times (Num a) b = Num (a * b)"
| "number_times NaN b = NaN"

fun nat_toString :: "nat \<Rightarrow> jsstring" where
  "nat_toString n =
     (if n < 10 then [of_nat (48 + n)]
      else nat_toString (n div 10) @ [of_nat (48 + n mod 10)])"

fun number_toString :: "nat number \<Rightarrow> jsstring" where
  "number_toString NaN = js ''NaN''"
| "number_toString (Num n) = nat_toString n"

text \<open>A group inside a template literal or handed to \<open>parseInt\<close>: \<open>undefined\<close> reads "undefined".\<close>

fun to_str :: "jsstring option \<Rightarrow> jsstring" where
  "to_str None = js ''undefined''"
| "to_str (Some s) = s"

section \<open>The patterns of the source\<close>

text \<open>\<^verbatim>\<open>/^(\s*)(ok|not ok)\s+(\d+)(?:\s+(?:-\s+)?(.*))?/\<close>\<close>

definition TEST_RESULT_REGEX :: regexp where
  "TEST_RESULT_REGEX =
     \<lparr>pattern = seq [Bol, Cap 1 (Star Space), Cap 2 (Alt (Lit (js ''ok'')) (Lit (js ''not ok''))),
                     Plus Space, Cap 3 (Plus Digit),
                     Opt (seq [Plus Space, Opt (seq [Lit (js ''-''), Plus Space]),
                               Cap 4 (Star AnyChar)])],
      ignoreCase = False\<rparr>"

text \<open>\<^verbatim>\<open>/^(\s*)(\d+)\.\.(\d+)$/\<close>\<close>

definition TEST_PLAN_REGEX :: regexp where
  "TEST_PLAN_REGEX =
     \<lparr>pattern = seq [Bol, Cap 1 (Star Space), Cap 2 (Plus Digit), Lit (js ''..''),
                     Cap 3 (Plus Digit), Eol],
      ignoreCase = False\<rparr>"

text \<open>\<^verbatim>\<open>/^(\d+)\.\.(\d+)$/\<close>, which the plan-stack folding provider applies to the trimmed line.\<close>

definition TRIMMED_PLAN_REGEX :: regexp where
  "TRIMMED_PLAN_REGEX =
     \<lparr>pattern = seq [Bol, Cap 1 (Plus Digit), Lit (js ''..''), Cap 2 (Plus Digit), Eol],
      ignoreCase = False\<rparr>"

text \<open>\<^verbatim>\<open>/# TODO/i\<close> and \<^verbatim>\<open>/# SKIP/i\<close>\<close>

definition TODO_REGEX :: regexp where
  "TODO_REGEX = \<lparr>pattern = Lit (js ''# TODO''), ignoreCase = True\<rparr>"

definition SKIP_REGEX :: regexp where
  "SKIP_REGEX = \<lparr>pattern = Lit (js ''# SKIP''), ignoreCase = True\<rparr>"

text \<open>\<^verbatim>\<open>/#.*$/\<close>\<close>

definition COMMENT_REGEX :: regexp where
  "COMMENT_REGEX = \<lparr>pattern = seq [Lit (js ''#''), Star AnyChar, Eol], ignoreCase = False\<rparr>"

text \<open>\<^verbatim>\<open>/\s+in\s+(\d+(?:\.\d+)?)(ms|s)\s*$/i\<close>\<close>

definition DURATION_REGEX :: regexp where
  "DURATION_REGEX =
     \<lparr>pattern = seq [Plus Space, Lit (js ''in''), Plus Space,
                     Cap 1 (seq [Plus Digit, Opt (seq [Lit (js ''.''), Plus Digit])]),
                     Cap 2 (Alt (Lit (js ''ms'')) (Lit (js ''s''))), Star Space, Eol],
      ignoreCase = True\<rparr>"

text \<open>\<^verbatim>\<open>/\s+in\s+\d+(?:\.\d+)?(?:ms|s)\s*$/i\<close>\<close>

definition DURATION_STRIP_REGEX :: regexp where
  "DURATION_STRIP_REGEX =
     \<lparr>pattern = seq [Plus Space, Lit (js ''in''), Plus Space,
                     seq [Plus Digit, Opt (seq [Lit (js ''.''), Plus Digit])],
                     Alt (Lit (js ''ms'')) (Lit (js ''s'')), Star Space, Eol],
      ignoreCase = True\<rparr>"

section \<open>The grouping parser\<close>

text \<open>
  \<open>parseTapContent\<close> builds test objects and keeps two references to the newest one: as the
  last element of \<open>currentGroup.tests\<close> and in \<open>currentTest\<close>, through which output lines are
  pushed later.  The model keeps the test objects in a store (\<open>heap\<close>, a reference is an index
  into it); groups hold references while the loop runs, and the result reads them out.
\<close>

datatype error = TypeError

record test =
  line :: nat
  indent :: nat
  passed :: bool
  testNumber :: "nat number"
  description :: jsstring
  duration :: "rat number option"
  hasTodo :: bool
  hasSkip :: bool
  fullLine :: jsstring
  "output" :: "jsstring list"

record 'r group =
  name :: jsstring
  group_line :: nat
  tests :: "'r list"

record parse_state =
  groups :: "nat group list"
  currentGroup :: "nat group option"
  currentTest :: "nat option"
  lastTestNumber :: "nat number"
  heap :: "test list"

text \<open>The branch of the loop body for a line that matches \<open>TEST_PLAN_REGEX\<close>.\<close>

definition plan_line :: "match_result \<Rightarrow> nat \<Rightarrow> parse_state \<Rightarrow> parse_state" where
  "plan_line planMatch i st =
     st\<lparr>groups := (case currentGroup st of None \<Rightarrow> groups st | Some g \<Rightarrow> groups st @ [g]),
        currentGroup :=
          Some \<lparr>name = js ''Tests '' @ to_str (caps planMatch 2) @ js ''..'' @ to_str (caps planMatch 3),
                group_line = i, tests = []\<rparr>,
        currentTest := None,
        lastTestNumber := Num 0\<rparr>"

text \<open>"Detect new group if test number resets" and "Create group if none exists".\<close>

definition reset_group :: "nat number \<Rightarrow> nat \<Rightarrow> parse_state \<Rightarrow> parse_state" where
  "reset_group n i st =
     (case currentGroup st of
        Some g \<Rightarrow>
          if number_le n (lastTestNumber st) \<and> length (tests g) > 0
          then st\<lparr>groups := groups st @ [g],
                  currentGroup :=
                    Some \<lparr>name = js ''Tests (group '' @ nat_toString (length (groups st @ [g]) + 1) @ js '')'',
                          group_line = i, tests = []\<rparr>\<rparr>
          else st
      | None \<Rightarrow> st)"

definition ensure_group :: "nat \<Rightarrow> parse_state \<Rightarrow> parse_state" where
  "ensure_group i st =
     (case currentGroup st of
        None \<Rightarrow> st\<lparr>currentGroup := Some \<lparr>name = js ''Tests'', group_line = i, tests = []\<rparr>\<rparr>
      | Some g \<Rightarrow> st)"

text \<open>The cleaned description, and the duration with the description it leaves.\<close>

definition clean_description :: "jsstring \<Rightarrow> nat number \<Rightarrow> jsstring" where
  "clean_description rest n =
     (let d = trim (replace_empty rest COMMENT_REGEX)
      in if d = [] then js ''Test '' @ number_toString n else d)"

definition extract_duration :: "jsstring \<Rightarrow> error + (rat number option \<times> jsstring)" where
  "extract_duration d =
     (case string_match d DURATION_REGEX of
        None \<Rightarrow> Inr (None, d)
      | Some durationMatch \<Rightarrow>
          (let v = parseFloat (to_str (caps durationMatch 1))
           in case caps durationMatch 2 of
                None \<Rightarrow> Inl TypeError
              | Some u \<Rightarrow>
                  Inr (Some (if toLowerCase u = js ''s'' then number_times v 1000 else v),
                       trim (replace_empty d DURATION_STRIP_REGEX))))"

text \<open>
  The branch for a line that matches \<open>TEST_RESULT_REGEX\<close>.  Reading \<open>.length\<close> of an undefined
  group, \<open>.toLowerCase()\<close> of one, or \<open>.tests\<close> of a null group throws a TypeError.
\<close>

definition test_line :: "match_result \<Rightarrow> jsstring \<Rightarrow> nat \<Rightarrow> parse_state \<Rightarrow> error + parse_state" where
  "test_line testMatch l i st =
     (case caps testMatch 1 of
        None \<Rightarrow> Inl TypeError
      | Some g1 \<Rightarrow>
          (let n = parseInt10 (to_str (caps testMatch 3));
               rest = (case caps testMatch 4 of None \<Rightarrow> [] | Some r \<Rightarrow> r);
               st1 = ensure_group i (reset_group n i st)
           in case extract_duration (clean_description rest n) of
                Inl e \<Rightarrow> Inl e
              | Inr (dur, descr) \<Rightarrow>
                  (case currentGroup st1 of
                     None \<Rightarrow> Inl TypeError
                   | Some g \<Rightarrow>
                       Inr (st1\<lparr>heap := heap st1 @
                                  [\<lparr>line = i, indent = length g1,
                                    passed = (caps testMatch 2 = Some (js ''ok'')),
                                    testNumber = n, description = descr, duration = dur,
                                    hasTodo = regexp_test TODO_REGEX l,
                                    hasSkip = regexp_test SKIP_REGEX l,
                                    fullLine = l, output = []\<rparr>],
                                currentTest := Some (length (heap st1)),
                                currentGroup := Some (g\<lparr>tests := tests g @ [length (heap st1)]\<rparr>),
                                lastTestNumber := n\<rparr>))))"

text \<open>"Any other line is output for the current test".\<close>

definition output_line :: "jsstring \<Rightarrow> parse_state \<Rightarrow> parse_state" where
  "output_line l st =
     (case currentTest st of
        None \<Rightarrow> st
      | Some r \<Rightarrow>
          if trim l \<noteq> []
          then st\<lparr>heap := (heap st)[r := (heap st ! r)\<lparr>output := output (heap st ! r) @ [l]\<rparr>]\<rparr>
          else st)"

definition parse_line :: "jsstring \<Rightarrow> nat \<Rightarrow> parse_state \<Rightarrow> error + parse_state" where
  "parse_line l i st =
     (case string_match l TEST_PLAN_REGEX of
        Some planMatch \<Rightarrow> Inr (plan_line planMatch i st)
      | None \<Rightarrow>
          (case string_match l TEST_RESULT_REGEX of
             Some testMatch \<Rightarrow> test_line testMatch l i st
           | None \<Rightarrow> Inr (output_line l st)))"

function parse_loop :: "jsstring list \<Rightarrow> nat \<Rightarrow> parse_state \<Rightarrow> error + parse_state" where
  "parse_loop lines i st =
     (if i < length lines
      then (case parse_line (lines ! i) i st of
              Inl e \<Rightarrow> Inl e
            | Inr st' \<Rightarrow> parse_loop lines (Suc i) st')
      else Inr st)"
  by pat_completeness auto
termination
  by (relation "measure (\<lambda>(lines, i, st). length lines - i)") auto

definition init_state :: parse_state where
  "init_state =
     \<lparr>groups = [], currentGroup = None, currentTest = None, lastTestNumber = Num 0, heap = []\<rparr>"

text \<open>"Don't forget the last group".\<close>

definition finish :: "parse_state \<Rightarrow> nat group list" where
  "finish st = (case currentGroup st of None \<Rightarrow> groups st | Some g \<Rightarrow> groups st @ [g])"

definition deref :: "test list \<Rightarrow> nat group \<Rightarrow> test group" where
  "deref h g = \<lparr>name = name g, group_line = group_line g, tests = map (\<lambda>r. h ! r) (tests g)\<rparr>"

text \<open>The function after \<open>const lines = text.split('\\n')\<close>, and the whole function.\<close>

definition parse_lines :: "jsstring list \<Rightarrow> error + test group list" where
  "parse_lines lines =
     (case parse_loop lines 0 init_state of
        Inl e \<Rightarrow> Inl e
      | Inr st \<Rightarrow> Inr (map (deref (heap st)) (finish st)))"

definition parseTapContent :: "jsstring \<Rightarrow> error + test group list" where
  "parseTapContent text = parse_lines (split_lines text)"

section \<open>Presentation of a test in the test run\<close>

text \<open>
  \<open>updateTestsForDocument\<close> reports every test to the test run with one of \<open>run.skipped\<close>,
  \<open>run.passed\<close> and \<open>run.failed\<close>; the call and its arguments are the value of \<open>report\<close>.
\<close>

datatype run_call =
    RunSkipped
  | RunPassed "rat number option"
  | RunFailed jsstring "rat number option"

fun join :: "jsstring \<Rightarrow> jsstring list \<Rightarrow> jsstring" where
  "join sep [] = []"
| "join sep [x] = x"
| "join sep (x # y # ys) = x @ sep @ join sep (y # ys)"

definition report :: "test \<Rightarrow> run_call" where
  "report t =
     (if hasSkip t then RunSkipped
      else if hasTodo t then (if passed t then RunPassed (duration t) else RunSkipped)
      else if passed t then RunPassed (duration t)
      else RunFailed (if length (output t) > 0 then join (js ''\<newline>'') (output t)
                      else js ''Test failed: '' @ description t)
                     (duration t))"

section \<open>The folding providers\<close>

datatype folding_kind = Region

record folding_range =
  range_start :: int
  range_end :: int
  kind :: "folding_kind option"

text \<open>The inner loop of both providers: the first line from \<open>j\<close> on that trims to \<open>...\<close>.\<close>

function yaml_loop :: "jsstring list \<Rightarrow> nat \<Rightarrow> nat \<Rightarrow> folding_range list \<Rightarrow> folding_range list" where
  "yaml_loop lines i j foldingRanges =
     (if j < length lines
      then (if trim (lines ! j) = js ''...''
            then foldingRanges @ [\<lparr>range_start = int i, range_end = int j, kind = Some Region\<rparr>]
            else yaml_loop lines i (Suc j) foldingRanges)
      else foldingRanges)"
  by pat_completeness auto
termination
  by (relation "measure (\<lambda>(lines, i, j, rs). length lines - j)") auto

subsection \<open>Folding from a test result to the lines below it\<close>

record fold_state =
  foldingRanges :: "folding_range list"
  currentTestLine :: int

definition close_test :: "nat \<Rightarrow> fold_state \<Rightarrow> folding_range list" where
  "close_test i st =
     (if currentTestLine st \<ge> 0 \<and> int i > currentTestLine st + 1
      then foldingRanges st @
             [\<lparr>range_start = currentTestLine st, range_end = int i - 1, kind = None\<rparr>]
      else foldingRanges st)"

definition fold_line :: "jsstring list \<Rightarrow> nat \<Rightarrow> fold_state \<Rightarrow> fold_state" where
  "fold_line lines i st =
     (case string_match (lines ! i) TEST_RESULT_REGEX of
        Some testMatch \<Rightarrow> \<lparr>foldingRanges = close_test i st, currentTestLine = int i\<rparr>
      | None \<Rightarrow>
          (case string_match (lines ! i) TEST_PLAN_REGEX of
             Some planMatch \<Rightarrow> \<lparr>foldingRanges = close_test i st, currentTestLine = - 1\<rparr>
           | None \<Rightarrow>
               if trim (lines ! i) = js ''---''
               then st\<lparr>foldingRanges := yaml_loop lines i (Suc i) (foldingRanges st)\<rparr>
               else st))"

function fold_loop :: "jsstring list \<Rightarrow> nat \<Rightarrow> fold_state \<Rightarrow> fold_state" where
  "fold_loop lines i st =
     (if i < length lines then fold_loop lines (Suc i) (fold_line lines i st) else st)"
  by pat_completeness auto
termination
  by (relation "measure (\<lambda>(lines, i, st). length lines - i)") auto

definition fold_finish :: "jsstring list \<Rightarrow> fold_state \<Rightarrow> folding_range list" where
  "fold_finish lines st =
     (if currentTestLine st \<ge> 0 \<and> int (length lines) > currentTestLine st + 1
      then foldingRanges st @
             [\<lparr>range_start = currentTestLine st, range_end = int (length lines) - 1, kind = None\<rparr>]
      else foldingRanges st)"

definition fold_lines :: "jsstring list \<Rightarrow> folding_range list" where
  "fold_lines lines =
     fold_finish lines (fold_loop lines 0 \<lparr>foldingRanges = [], currentTestLine = - 1\<rparr>)"

definition provideFoldingRanges :: "jsstring \<Rightarrow> folding_range list" where
  "provideFoldingRanges text = fold_lines (split_lines text)"

subsection \<open>Folding from a test plan to the next plan of the same depth\<close>

text \<open>
  The provider of the earlier revision keeps a stack of open plans; the last element of the
  array is its top.
\<close>

record plan_entry =
  startLine :: int
  entry_indent :: nat

record stack_state =
  ranges :: "folding_range list"
  stack :: "plan_entry list"

function pop_loop :: "nat \<Rightarrow> nat \<Rightarrow> stack_state \<Rightarrow> stack_state" where
  "pop_loop indentation i st =
     (if length (stack st) > 0 \<and> entry_indent (last (stack st)) \<ge> indentation
      then pop_loop indentation i
             \<lparr>ranges = (if startLine (last (stack st)) < int i - 1
                         then ranges st @ [\<lparr>range_start = startLine (last (stack st)),
                                            range_end = int i - 1, kind = None\<rparr>]
                         else ranges st),
              stack = butlast (stack st)\<rparr>
      else st)"
  by pat_completeness auto
termination
  by (relation "measure (\<lambda>(d, i, st). length (stack st))") auto

definition stack_line :: "jsstring list \<Rightarrow> nat \<Rightarrow> stack_state \<Rightarrow> stack_state" where
  "stack_line lines i st =
     (let trimmedLine = trim (lines ! i);
          indentation = length (lines ! i) - length (trimStart (lines ! i))
      in case string_match trimmedLine TRIMMED_PLAN_REGEX of
           Some planMatch \<Rightarrow>
             (let st' = pop_loop indentation i st
              in st'\<lparr>stack := stack st' @ [\<lparr>startLine = int i, entry_indent = indentation\<rparr>]\<rparr>)
         | None \<Rightarrow>
             if trimmedLine = js ''---''
             then st\<lparr>ranges := yaml_loop lines i (Suc i) (ranges st)\<rparr>
             else st)"

function stack_loop :: "jsstring list \<Rightarrow> nat \<Rightarrow> stack_state \<Rightarrow> stack_state" where
  "stack_loop lines i st =
     (if i < length lines then stack_loop lines (Suc i) (stack_line lines i st) else st)"
  by pat_completeness auto
termination
  by (relation "measure (\<lambda>(lines, i, st). length lines - i)") auto

function close_remaining :: "jsstring list \<Rightarrow> stack_state \<Rightarrow> stack_state" where
  "close_remaining lines st =
     (if length (stack st) > 0
      then close_remaining lines
             \<lparr>ranges = (if startLine (last (stack st)) < int (length lines) - 1
                         then ranges st @ [\<lparr>range_start = startLine (last (stack st)),
                                            range_end = int (length lines) - 1, kind = None\<rparr>]
                         else ranges st),
              stack = butlast (stack st)\<rparr>
      else st)"
  by pat_completeness auto
termination
  by (relation "measure (\<lambda>(lines, st). length (stack st))") auto

definition stack_lines :: "jsstring list \<Rightarrow> folding_range list" where
  "stack_lines lines =
     ranges (close_remaining lines (stack_loop lines 0 \<lparr>ranges = [], stack = []\<rparr>))"

definition provideFoldingRanges_stack :: "jsstring \<Rightarrow> folding_range list" where
  "provideFoldingRanges_stack text = stack_lines (split_lines text)"

section \<open>Reasoning about the matcher\<close>

text \<open>
  Three analyses of a pattern, used only in proofs: whether it can hand a non-empty input on
  without consuming anything, which code units a match may begin with, and which groups it
  can set.
\<close>

declare search.simps [simp del]
declare nat_toString.simps [simp del]
declare parse_loop.simps [simp del]
declare pop_loop.simps [simp del]
declare stack_loop.simps [simp del]
declare close_remaining.simps [simp del]
declare yaml_loop.simps [simp del]
declare fold_loop.simps [simp del]

fun can_skip :: "regex \<Rightarrow> bool" where
  "can_skip Eps = True"
| "can_skip Bol = True"
| "can_skip Eol = False"
| "can_skip (Atom a) = False"
| "can_skip (Star a) = True"
| "can_skip (Plus a) = False"
| "can_skip (Lit l) = (l = [])"
| "can_skip (Seq r1 r2) = (can_skip r1 \<and> can_skip r2)"
| "can_skip (Alt r1 r2) = (can_skip r1 \<or> can_skip r2)"
| "can_skip (Opt r) = True"
| "can_skip (Cap g r) = can_skip r"

fun may_start :: "bool \<Rightarrow> regex \<Rightarrow> code_unit \<Rightarrow> bool" where
  "may_start ic Eps x = False"
| "may_start ic Bol x = False"
| "may_start ic Eol x = False"
| "may_start ic (Atom a) x = atom_match ic a x"
| "may_start ic (Star a) x = atom_match ic a x"
| "may_start ic (Plus a) x = atom_match ic a x"
| "may_start ic (Lit l) x = (case l of [] \<Rightarrow> False | a # as \<Rightarrow> atom_match ic (Chr a) x)"
| "may_start ic (Seq r1 r2) x = (may_start ic r1 x \<or> (can_skip r1 \<and> may_start ic r2 x))"
| "may_start ic (Alt r1 r2) x = (may_start ic r1 x \<or> may_start ic r2 x)"
| "may_start ic (Opt r) x = may_start ic r x"
| "may_start ic (Cap g r) x = may_start ic r x"

fun groups_of :: "regex \<Rightarrow> nat set" where
  "groups_of (Seq r1 r2) = groups_of r1 \<union> groups_of r2"
| "groups_of (Alt r1 r2) = groups_of r1 \<union> groups_of r2"
| "groups_of (Opt r) = groups_of r"
| "groups_of (Cap g r) = insert g (groups_of r)"
| "groups_of r = {}"

text \<open>
  The state of the grouping loop when it reaches line \<open>k\<close>, and the invariant of the loop:
  every reference of a group points into the store, the test numbers of a group are numbers
  and strictly increase, \<open>lastTestNumber\<close> is the number of the newest test of a non-empty
  current group, and \<open>currentTest\<close> points into the store.
\<close>

definition state_before :: "jsstring list \<Rightarrow> nat \<Rightarrow> error + parse_state" where
  "state_before lines k = parse_loop (take k lines) 0 init_state"

definition group_ok :: "test list \<Rightarrow> nat group \<Rightarrow> bool" where
  "group_ok h g =
     ((\<forall>r\<in>set (tests g). r < length h) \<and>
      (\<exists>ks. map (\<lambda>r. testNumber (h ! r)) (tests g) = map Num ks \<and> sorted_wrt (<) ks))"

definition inv :: "parse_state \<Rightarrow> bool" where
  "inv st =
     ((\<forall>g\<in>set (groups st). group_ok (heap st) g) \<and>
      (case currentGroup st of
         None \<Rightarrow> True
       | Some g \<Rightarrow> group_ok (heap st) g \<and>
                   (tests g \<noteq> [] \<longrightarrow> lastTestNumber st = testNumber (heap st ! last (tests g)))) \<and>
      (case currentTest st of None \<Rightarrow> True | Some r \<Rightarrow> r < length (heap st)))"

text \<open>
  The first \<open>n\<close> test objects of the store are \<open>h\<close> and \<open>currentTest\<close> does not point at one
  of them, so that no later step can change them.
\<close>

definition frozen :: "nat \<Rightarrow> test list \<Rightarrow> parse_state \<Rightarrow> bool" where
  "frozen n h st =
     (take n (heap st) = h \<and> n \<le> length (heap st) \<and>
      (case currentTest st of None \<Rightarrow> True | Some r \<Rightarrow> n \<le> r))"

text \<open>
  What a claim means by a string that contains another under case-insensitive comparison:
  at some position the next code units, upper-cased, are the upper-cased needle.
\<close>

definition contains_ci :: "jsstring \<Rightarrow> jsstring \<Rightarrow> bool" where
  "contains_ci needle s =
     list_ex (\<lambda>j. map canonicalize (take (length needle) (drop j s)) = map canonicalize needle)
       [0..<Suc (length s)]"

text \<open>
  Two more invariants: no output line of a test object is blank, and every folding range
  and the current test line of the folding loop start at a line that is not blank.
\<close>

definition outputs_ok :: "parse_state \<Rightarrow> bool" where
  "outputs_ok st = (\<forall>t\<in>set (heap st). \<forall>l\<in>set (output t). trim l \<noteq> [])"

definition fold_starts :: "jsstring list \<Rightarrow> fold_state \<Rightarrow> bool" where
  "fold_starts lines st =
     ((\<forall>r\<in>set (foldingRanges st). \<exists>s<length lines. range_start r = int s \<and> trim (lines ! s) \<noteq> []) \<and>
      (currentTestLine st = - 1 \<or>
       (\<exists>s<length lines. currentTestLine st = int s \<and> trim (lines ! s) \<noteq> [])))"

text \<open>
  What the folding providers hold of the ranges that start at line \<open>i\<close>, a line that trims to
  \<open>---\<close>, before line \<open>k\<close> is read; and the lines that neither provider nor the parser reads
  as a result, a plan or a delimiter of a block.
\<close>

definition opener_inv :: "jsstring list \<Rightarrow> nat \<Rightarrow> nat \<Rightarrow> fold_state \<Rightarrow> bool" where
  "opener_inv lines i k st =
     ((\<forall>r\<in>set (foldingRanges st). range_start r = int i \<longrightarrow> r \<in> set (yaml_loop lines i (Suc i) [])) \<and>
      currentTestLine st \<noteq> int i \<and>
      (i < k \<longrightarrow> set (yaml_loop lines i (Suc i) []) \<subseteq> set (foldingRanges st)))"

definition stack_opener_inv :: "jsstring list \<Rightarrow> nat \<Rightarrow> nat \<Rightarrow> stack_state \<Rightarrow> bool" where
  "stack_opener_inv lines i k st =
     ((\<forall>r\<in>set (ranges st). range_start r = int i \<longrightarrow> r \<in> set (yaml_loop lines i (Suc i) [])) \<and>
      (\<forall>e\<in>set (stack st). startLine e \<noteq> int i) \<and>
      (i < k \<longrightarrow> set (yaml_loop lines i (Suc i) []) \<subseteq> set (ranges st)))"

definition plain_line :: "jsstring \<Rightarrow> bool" where
  "plain_line l =
     (string_match l TEST_RESULT_REGEX = None \<and> string_match l TEST_PLAN_REGEX = None \<and>
      string_match (trim l) TRIMMED_PLAN_REGEX = None \<and>
      trim l \<noteq> js ''---'' \<and> trim l \<noteq> js ''...'')"

text \<open>Names for the ends of two patterns.\<close>

definition test_tail :: regex where
  "test_tail = seq [Opt (seq [Plus Space, Opt (seq [Lit (js ''-''), Plus Space]), Cap 4 (Star AnyChar)])]"

definition duration_pattern_tail :: regex where
  "duration_pattern_tail = seq [Star Space, Eol]"

subsection \<open>Greedy quantifiers without backtracking\<close>

text \<open>
  When what follows a quantifier cannot begin with a character of the quantified class, or
  always succeeds, the quantifier takes the longest run and never gives a character back.
\<close>

lemma star_first: "k (dropWhile p s) \<noteq> None \<Longrightarrow> star p k s = k (dropWhile p s)"
  by (induction s) (auto split: option.splits)

lemma star_det: "(\<And>c cs. p c \<Longrightarrow> k (c # cs) = None) \<Longrightarrow> star p k s = k (dropWhile p s)"
  by (induction s) (auto split: option.splits)

lemma star_some:
  "star p k s = Some res \<Longrightarrow> \<exists>j \<le> length (takeWhile p s). k (drop j s) = Some res"
proof (induction s)
  case Nil
  then show ?case by simp
next
  case (Cons c cs)
  show ?case
  proof (cases "p c \<and> star p k cs = Some res")
    case True
    with Cons.IH obtain j where "j \<le> length (takeWhile p cs)" "k (drop j cs) = Some res"
      by auto
    with True show ?thesis by (intro exI[of _ "Suc j"]) simp
  next
    case False
    with Cons.prems have "k (c # cs) = Some res"
      by (auto split: if_splits option.splits)
    then show ?thesis by (intro exI[of _ 0]) simp
  qed
qed

lemma rmatch_rejects:
  "\<not> may_start ic r x \<Longrightarrow> (can_skip r \<Longrightarrow> (\<forall>c'. k (x # xs, c') = None)) \<Longrightarrow>
   rmatch ic n r k (x # xs, c) = None"
proof (induction r arbitrary: k c)
  case (Lit l)
  then show ?case by (cases l) auto
next
  case (Seq r1 r2)
  show ?case
    using Seq.prems by (auto intro!: Seq.IH)
next
  case (Alt r1 r2)
  then show ?case by (auto split: option.splits)
next
  case (Opt r)
  then show ?case by (auto split: option.splits)
qed auto

lemma rmatch_preserves:
  "rmatch ic n r k st = Some res \<Longrightarrow>
   \<exists>st'. k st' = Some res \<and> (\<forall>g. g \<notin> groups_of r \<longrightarrow> snd st' g = snd st g)"
proof (induction r arbitrary: k st)
  case (Star a)
  then show ?case by (auto dest!: star_some)
next
  case (Plus a)
  then show ?case by (auto dest!: star_some split: list.splits if_splits)
next
  case (Seq r1 r2)
  from Seq.prems obtain st1 where 1: "rmatch ic n r2 k st1 = Some res"
    and 2: "\<forall>g. g \<notin> groups_of r1 \<longrightarrow> snd st1 g = snd st g"
    using Seq.IH(1)[of "\<lambda>st'. rmatch ic n r2 k st'" st] by auto
  from Seq.IH(2)[OF 1] obtain st2 where "k st2 = Some res"
    and "\<forall>g. g \<notin> groups_of r2 \<longrightarrow> snd st2 g = snd st1 g" by auto
  with 2 show ?case by (intro exI[of _ st2]) auto
next
  case (Alt r1 r2)
  then show ?case by (fastforce split: option.splits)
next
  case (Opt r)
  show ?case
  proof (cases "rmatch ic n r (\<lambda>st'. if length (fst st') = length (fst st) then None else k st') st")
    case None
    with Opt.prems show ?thesis by (intro exI[of _ st]) auto
  next
    case (Some a)
    with Opt.prems have "a = res" by simp
    with Some Opt.IH[of "\<lambda>st'. if length (fst st') = length (fst st) then None else k st'" st]
    show ?thesis by (auto split: if_splits)
  qed
next
  case (Cap g r)
  from Cap.prems Cap.IH[of _ st] show ?case by fastforce
next
  case Eps
  then show ?case by (intro exI[of _ st]) auto
next
  case Bol
  then show ?case by (intro exI[of _ st]) (auto split: if_splits)
next
  case Eol
  then show ?case by (intro exI[of _ st]) (auto split: if_splits)
next
  case (Atom a)
  then show ?case by (auto split: list.splits if_splits)
next
  case (Lit l)
  then show ?case by (auto split: option.splits)
qed

lemma lit_eq:
  "lit ic l s =
     (if list_all2 (\<lambda>a c. atom_match ic (Chr a) c) l (take (length l) s)
      then Some (drop (length l) s) else None)"
  by (induction ic l s rule: lit.induct) auto

lemma lit_exact: "lit False l s = (if take (length l) s = l then Some (drop (length l) s) else None)"
  by (auto simp: lit_eq list_all2_eq[symmetric])

lemma lit_ci:
  "lit True l s =
     (if length l \<le> length s \<and> map canonicalize (take (length l) s) = map canonicalize l
      then Some (drop (length l) s) else None)"
proof (induction l arbitrary: s)
  case Nil
  then show ?case by simp
next
  case (Cons a l)
  then show ?case by (cases s) auto
qed

lemma search_bol:
  "pattern re = Seq Bol r \<Longrightarrow> length s < n \<Longrightarrow> search re n i s = None"
  by (induction s arbitrary: i) (auto simp: search.simps)

lemma exec_bol:
  "pattern re = Seq Bol r \<Longrightarrow>
   regexp_exec re s =
     (case rmatch (ignoreCase re) (length s) r Some (s, \<lambda>g. None) of
        None \<Rightarrow> None
      | Some st' \<Rightarrow> Some \<lparr>index = 0, matched = take (length s - length (fst st')) s, caps = snd st'\<rparr>)"
  unfolding regexp_exec_def
  by (subst search.simps) (auto simp: search_bol split: option.splits list.splits)

lemma take_consumed:
  "take (length s - length (dropWhile p s)) s = takeWhile p s"
  by (metis append_eq_conv_conj length_append add_diff_cancel_right' takeWhile_dropWhile_id)

lemma take_consumed_Cons:
  "p x \<Longrightarrow> take (Suc (length xs) - length (dropWhile p xs)) (x # xs) = x # takeWhile p xs"
  using take_consumed[of "x # xs" p] by simp

lemma seq_star_det:
  assumes "\<forall>x. atom_match ic a x \<longrightarrow> \<not> may_start ic r2 x"
    and "can_skip r2 \<longrightarrow> (\<forall>x xs c'. atom_match ic a x \<longrightarrow> k (x # xs, c') = None)"
  shows "rmatch ic n (Seq (Star a) r2) k (s, c) =
         rmatch ic n r2 k (dropWhile (atom_match ic a) s, c)"
  using assms by (simp add: star_det rmatch_rejects)

lemma seq_plus_det:
  assumes "\<forall>x. atom_match ic a x \<longrightarrow> \<not> may_start ic r2 x"
    and "can_skip r2 \<longrightarrow> (\<forall>x xs c'. atom_match ic a x \<longrightarrow> k (x # xs, c') = None)"
  shows "rmatch ic n (Seq (Plus a) r2) k (s, c) =
         (case s of [] \<Rightarrow> None
          | x # xs \<Rightarrow> if atom_match ic a x
                      then rmatch ic n r2 k (dropWhile (atom_match ic a) xs, c) else None)"
  using assms by (simp add: star_det rmatch_rejects split: list.splits)

lemma seq_cap_star_det:
  assumes "\<forall>x. atom_match ic a x \<longrightarrow> \<not> may_start ic r2 x"
    and "can_skip r2 \<longrightarrow> (\<forall>x xs c'. atom_match ic a x \<longrightarrow> k (x # xs, c') = None)"
  shows "rmatch ic n (Seq (Cap g (Star a)) r2) k (s, c) =
         rmatch ic n r2 k (dropWhile (atom_match ic a) s,
                           c(g \<mapsto> takeWhile (atom_match ic a) s))"
  using assms by (simp add: star_det rmatch_rejects take_consumed)

lemma seq_cap_plus_det:
  assumes "\<forall>x. atom_match ic a x \<longrightarrow> \<not> may_start ic r2 x"
    and "can_skip r2 \<longrightarrow> (\<forall>x xs c'. atom_match ic a x \<longrightarrow> k (x # xs, c') = None)"
  shows "rmatch ic n (Seq (Cap g (Plus a)) r2) k (s, c) =
         (case s of [] \<Rightarrow> None
          | x # xs \<Rightarrow> if atom_match ic a x
                      then rmatch ic n r2 k (dropWhile (atom_match ic a) xs,
                             c(g \<mapsto> takeWhile (atom_match ic a) s))
                      else None)"
  using assms by (simp add: star_det rmatch_rejects take_consumed_Cons split: list.splits)

lemma seq_other:
  "rmatch ic n (Seq Bol r2) k (s, c) = (if length s = n then rmatch ic n r2 k (s, c) else None)"
  "rmatch ic n (Seq Eol r2) k (s, c) = (if s = [] then rmatch ic n r2 k (s, c) else None)"
  "rmatch ic n (Seq Eps r2) k st = rmatch ic n r2 k st"
  "rmatch False n (Seq (Lit l) r2) k (s, c) =
     (if take (length l) s = l then rmatch False n r2 k (drop (length l) s, c) else None)"
  "rmatch True n (Seq (Lit l) r2) k (s, c) =
     (if length l \<le> length s \<and> map canonicalize (take (length l) s) = map canonicalize l
      then rmatch True n r2 k (drop (length l) s, c) else None)"
  by (simp_all add: lit_exact lit_ci)

lemmas seq_det = seq_star_det seq_plus_det seq_cap_star_det seq_cap_plus_det seq_other

lemma atom_match_fun [simp]:
  "atom_match ic Space = is_space" "atom_match ic Digit = is_digit"
  "atom_match ic AnyChar = (\<lambda>c. \<not> is_line_terminator c)"
  by (auto simp: fun_eq_iff)

lemma space_not_digit: "is_space c \<Longrightarrow> \<not> is_digit c"
  by (auto simp: is_space_def is_digit_def is_white_space_def is_line_terminator_def)

lemma class_neq:
  "is_space x \<Longrightarrow> \<not> is_space c \<Longrightarrow> (c = x) = False"
  "is_digit x \<Longrightarrow> \<not> is_digit c \<Longrightarrow> (c = x) = False"
  by auto

lemma is_space_numeral [simp]:
  "is_space (numeral w) = (numeral w \<in> set [0x09, 0x0A, 0x0B, 0x0C, 0x0D, 0x20, 0xA0, 0x1680,
     0x2000, 0x2001, 0x2002, 0x2003, 0x2004, 0x2005, 0x2006, 0x2007, 0x2008, 0x2009, 0x200A,
     0x2028, 0x2029, 0x202F, 0x205F, 0x3000, 0xFEFF :: code_unit])"
  by (auto simp: is_space_def is_white_space_def is_line_terminator_def)

lemma is_digit_numeral [simp]:
  "is_digit (numeral w) = (0x30 \<le> (numeral w :: code_unit) \<and> (numeral w :: code_unit) \<le> 0x39)"
  by (simp add: is_digit_def)

lemma digit_not_lower: "is_digit x \<Longrightarrow> \<not> (0x61 \<le> x \<and> x \<le> 0x7A)"
  unfolding is_digit_def by unat_arith

lemma canon_class [simp]:
  "is_space x \<Longrightarrow> canonicalize x = x"
  "is_digit x \<Longrightarrow> canonicalize x = x"
  using digit_not_lower[of x]
  by (auto simp: canonicalize_def is_space_def is_white_space_def is_line_terminator_def)

lemma canon_numeral [simp]:
  "canonicalize (numeral w) =
     (if 0x61 \<le> (numeral w :: code_unit) \<and> (numeral w :: code_unit) \<le> 0x7A
      then numeral w - 0x20 else numeral w)"
  by (simp add: canonicalize_def)

subsection \<open>The test-plan pattern\<close>


lemma takeWhile_stop:
  "\<forall>c\<in>set ws. p c \<Longrightarrow> r = [] \<or> \<not> p (hd r) \<Longrightarrow> takeWhile p (ws @ r) = ws"
  by (induction ws) (auto simp: takeWhile_eq_Nil_iff)

lemma dropWhile_stop:
  "\<forall>c\<in>set ws. p c \<Longrightarrow> r = [] \<or> \<not> p (hd r) \<Longrightarrow> dropWhile p (ws @ r) = r"
  by (induction ws) (auto simp: dropWhile_eq_self_iff)

lemma js_dots: "js ''..'' = [0x2E, 0x2E]"
  by (simp add: js_def)

lemma plan_match_det:
  "string_match l TEST_PLAN_REGEX =
     (case dropWhile is_space l of
        [] \<Rightarrow> None
      | x # xs \<Rightarrow>
          if is_digit x \<and> take 2 (dropWhile is_digit xs) = js ''..''
          then (case drop 2 (dropWhile is_digit xs) of
                  [] \<Rightarrow> None
                | y # ys \<Rightarrow>
                    if is_digit y \<and> (\<forall>c\<in>set ys. is_digit c)
                    then Some \<lparr>index = 0, matched = l,
                               caps = (\<lambda>g. None)(1 \<mapsto> takeWhile is_space l,
                                                2 \<mapsto> x # takeWhile is_digit xs, 3 \<mapsto> y # ys)\<rparr>
                    else None)
          else None)"
  unfolding string_match_def
  apply (subst exec_bol[where r = "seq [Cap 1 (Star Space), Cap 2 (Plus Digit), Lit (js ''..''), Cap 3 (Plus Digit), Eol]"])
   apply (simp add: TEST_PLAN_REGEX_def)
  apply (simp add: TEST_PLAN_REGEX_def seq_det space_not_digit class_neq js_dots
      del: rmatch.simps(8) cong: list.case_cong if_cong)
  apply (auto split: list.splits simp: js_dots numeral_2_eq_2 takeWhile_eq_all_conv[THEN iffD2] dropWhile_eq_Nil_conv[THEN iffD2])
  done



lemma js_dots_facts: "length (js ''..'') = 2" "hd (js ''..'') = 0x2E" "js ''..'' \<noteq> []"
  by (simp_all add: js_dots)

lemma plan_match_shape:
  assumes "\<forall>c\<in>set ws. is_space c" "a \<noteq> []" "\<forall>c\<in>set a. is_digit c" "b \<noteq> []" "\<forall>c\<in>set b. is_digit c"
  shows "string_match (ws @ a @ js ''..'' @ b) TEST_PLAN_REGEX =
           Some \<lparr>index = 0, matched = ws @ a @ js ''..'' @ b,
                 caps = (\<lambda>g. None)(1 \<mapsto> ws, 2 \<mapsto> a, 3 \<mapsto> b)\<rparr>"
proof -
  obtain x xs where a: "a = x # xs" using assms(2) by (cases a) auto
  obtain y ys where b: "b = y # ys" using assms(4) by (cases b) auto
  have x: "is_digit x" "\<forall>c\<in>set xs. is_digit c" using assms(3) a by auto
  have y: "is_digit y" "\<forall>c\<in>set ys. is_digit c" using assms(5) b by auto
  have 1: "dropWhile is_space (ws @ a @ js ''..'' @ b) = x # (xs @ js ''..'' @ b)"
    using dropWhile_stop[of ws is_space "a @ js ''..'' @ b"] assms(1) x(1) a
    by (auto dest: space_not_digit)
  have 2: "takeWhile is_space (ws @ a @ js ''..'' @ b) = ws"
    using takeWhile_stop[of ws is_space "a @ js ''..'' @ b"] assms(1) x(1) a
    by (auto dest: space_not_digit)
  have nd: "\<not> is_digit (hd (js ''..'' @ b))"
    by (simp add: js_dots)
  have 3: "dropWhile is_digit (xs @ js ''..'' @ b) = js ''..'' @ b"
    using dropWhile_stop[of xs is_digit "js ''..'' @ b"] x(2) nd by blast
  have 4: "takeWhile is_digit (xs @ js ''..'' @ b) = xs"
    using takeWhile_stop[of xs is_digit "js ''..'' @ b"] x(2) nd by blast
  have 5: "take 2 (js ''..'' @ b) = js ''..''" "drop 2 (js ''..'' @ b) = y # ys"
    by (simp_all add: js_dots_facts b)
  show ?thesis
    unfolding plan_match_det 1 2 list.case 3 4 5
    using x(1) y by (simp add: a b)
qed

lemma plan_match_sound:
  assumes "string_match l TEST_PLAN_REGEX = Some m"
  shows "\<exists>ws a b. l = ws @ a @ js ''..'' @ b \<and> (\<forall>c\<in>set ws. is_space c) \<and> a \<noteq> [] \<and>
           (\<forall>c\<in>set a. is_digit c) \<and> b \<noteq> [] \<and> (\<forall>c\<in>set b. is_digit c) \<and>
           m = \<lparr>index = 0, matched = l, caps = (\<lambda>g. None)(1 \<mapsto> ws, 2 \<mapsto> a, 3 \<mapsto> b)\<rparr>"
proof -
  note det = assms[unfolded plan_match_det]
  obtain x xs where 1: "dropWhile is_space l = x # xs"
    using det by (cases "dropWhile is_space l") auto
  note det1 = det[unfolded 1 list.case]
  have 2: "is_digit x" and 3: "take 2 (dropWhile is_digit xs) = js ''..''"
    using det1 by (auto split: if_splits)
  obtain y ys where 4: "drop 2 (dropWhile is_digit xs) = y # ys"
    using det1 2 3 by (cases "drop 2 (dropWhile is_digit xs)") auto
  have 5: "is_digit y" "\<forall>c\<in>set ys. is_digit c"
    and m: "m = \<lparr>index = 0, matched = l,
                 caps = (\<lambda>g. None)(1 \<mapsto> takeWhile is_space l, 2 \<mapsto> x # takeWhile is_digit xs, 3 \<mapsto> y # ys)\<rparr>"
    using det1 2 3 by (auto simp: 4 split: if_splits)
  have "l = takeWhile is_space l @ dropWhile is_space l" by simp
  then have l1: "l = takeWhile is_space l @ x # xs" unfolding 1 .
  have "xs = takeWhile is_digit xs @ (take 2 (dropWhile is_digit xs) @ drop 2 (dropWhile is_digit xs))"
    by simp
  then have l2: "xs = takeWhile is_digit xs @ js ''..'' @ y # ys" unfolding 3 4 .
  have L: "l = takeWhile is_space l @ (x # takeWhile is_digit xs) @ js ''..'' @ (y # ys)"
    using l1 l2 by simp
  have W: "\<forall>c\<in>set (takeWhile is_space l). is_space c"
    by (auto dest: set_takeWhileD)
  have A: "\<forall>c\<in>set (x # takeWhile is_digit xs). is_digit c"
    using 2 by (auto dest: set_takeWhileD)
  have B: "\<forall>c\<in>set (y # ys). is_digit c"
    using 5 by simp
  show ?thesis
    apply (rule exI[of _ "takeWhile is_space l"])
    apply (rule exI[of _ "x # takeWhile is_digit xs"])
    apply (rule exI[of _ "y # ys"])
    apply (intro conjI)
          apply (rule L)
         apply (rule W)
        apply simp
       apply (rule A)
      apply simp
     apply (rule B)
    apply (rule m)
    done
qed

subsection \<open>The test-result pattern\<close>


lemma seq_cap_plus_first:
  assumes "\<forall>st'. rmatch ic n r2 k st' \<noteq> None"
  shows "rmatch ic n (Seq (Cap g (Plus a)) r2) k (s, c) =
         (case s of [] \<Rightarrow> None
          | x # xs \<Rightarrow> if atom_match ic a x
                      then rmatch ic n r2 k (dropWhile (atom_match ic a) xs,
                             c(g \<mapsto> takeWhile (atom_match ic a) s))
                      else None)"
  using assms by (simp add: star_first take_consumed_Cons split: list.splits)

lemma opt_end_total: "rmatch ic n (Seq (Opt r) Eps) Some st \<noteq> None"
  by (simp split: option.splits)

lemma seq_cap_alt_lit:
  "rmatch False n (Seq (Cap g (Alt (Lit l1) (Lit l2))) r2) k (s, c) =
     (case (if take (length l1) s = l1 then rmatch False n r2 k (drop (length l1) s, c(g \<mapsto> l1)) else None) of
        Some res \<Rightarrow> Some res
      | None \<Rightarrow> (if take (length l2) s = l2 then rmatch False n r2 k (drop (length l2) s, c(g \<mapsto> l2)) else None))"
proof -
  have "\<And>l. take (length l) s = l \<Longrightarrow> take (length s - length (drop (length l) s)) s = l"
    by (metis append_take_drop_id append_eq_conv_conj length_append add_diff_cancel_right')
  then show ?thesis by (auto simp: lit_exact split: option.splits)
qed

lemma seq_step:
  assumes "rmatch ic n (Seq r1 r2) k st = Some res"
  shows "\<exists>st1. rmatch ic n r2 k st1 = Some res \<and> (\<forall>g. g \<notin> groups_of r1 \<longrightarrow> snd st1 g = snd st g)"
  using rmatch_preserves[of ic n r1 "\<lambda>st'. rmatch ic n r2 k st'" st res] assms by simp

lemma cap_step:
  assumes "rmatch ic n (Seq (Cap g r1) r2) k st = Some res"
  shows "\<exists>st1. rmatch ic n r2 k st1 = Some res \<and> snd st1 g \<noteq> None \<and>
           (\<forall>g'. g' \<noteq> g \<and> g' \<notin> groups_of r1 \<longrightarrow> snd st1 g' = snd st g')"
proof -
  let ?k = "\<lambda>st'. rmatch ic n r2 k
      (fst st', (snd st')(g \<mapsto> take (length (fst st) - length (fst st')) (fst st)))"
  have "rmatch ic n r1 ?k st = Some res" using assms by simp
  from rmatch_preserves[OF this] obtain st' where 1: "?k st' = Some res"
    and 2: "\<forall>g. g \<notin> groups_of r1 \<longrightarrow> snd st' g = snd st g"
    by blast
  show ?thesis
    apply (rule exI[of _ "(fst st', (snd st')(g \<mapsto> take (length (fst st) - length (fst st')) (fst st)))"])
    using 1 2 by simp
qed

lemma test_pattern:
  "pattern TEST_RESULT_REGEX =
     Seq Bol (Seq (Cap 1 (Star Space)) (Seq (Cap 2 (Alt (Lit (js ''ok'')) (Lit (js ''not ok''))))
       (Seq (Plus Space) (Seq (Cap 3 (Plus Digit)) test_tail))))"
  by (simp add: TEST_RESULT_REGEX_def test_tail_def)

lemma test_tail_facts:
  "rmatch False n test_tail Some st \<noteq> None"
  "groups_of test_tail = {4}"
  by (simp_all add: test_tail_def split: option.splits)

lemma test_digits:
  assumes "rmatch False n (Seq (Cap 3 (Plus Digit)) test_tail) Some (s, c) = Some st'"
  shows "(\<exists>ds. snd st' 3 = Some ds \<and> ds \<noteq> [] \<and> (\<forall>x\<in>set ds. is_digit x)) \<and>
         (\<forall>g. g \<noteq> 3 \<and> g \<noteq> 4 \<longrightarrow> snd st' g = c g)"
proof -
  have total: "\<forall>st'. rmatch False n test_tail Some st' \<noteq> None"
    by (simp add: test_tail_facts)
  note eq = assms[unfolded seq_cap_plus_first[OF total]]
  obtain x xs where s: "s = x # xs" using eq by (cases s) auto
  have x: "is_digit x" using eq s by (auto split: if_splits)
  have "rmatch False n test_tail Some (dropWhile is_digit xs, c(3 \<mapsto> x # takeWhile is_digit xs)) = Some st'"
    using eq s x by simp
  from rmatch_preserves[OF this]
  have "\<forall>g. g \<noteq> 4 \<longrightarrow> snd st' g = (c(3 \<mapsto> x # takeWhile is_digit xs)) g"
    by (auto simp: test_tail_facts)
  then show ?thesis using x by (auto dest: set_takeWhileD)
qed

lemma test_match_caps:
  assumes "string_match l TEST_RESULT_REGEX = Some m"
  shows "\<exists>g1 ds. caps m 1 = Some g1 \<and> caps m 3 = Some ds \<and> ds \<noteq> [] \<and> (\<forall>x\<in>set ds. is_digit x)"
proof -
  let ?R3 = "Seq (Cap 3 (Plus Digit)) test_tail"
  let ?R2 = "Seq (Plus Space) ?R3"
  let ?A = "Alt (Lit (js ''ok'')) (Lit (js ''not ok''))"
  let ?R1 = "Seq (Cap 2 ?A) ?R2"
  let ?n = "length l"
  from assms obtain st' where m: "caps m = snd st'"
    and 0: "rmatch False ?n (Seq (Cap 1 (Star Space)) ?R1) Some (l, \<lambda>g. None) = Some st'"
    unfolding string_match_def exec_bol[OF test_pattern]
    by (auto simp: TEST_RESULT_REGEX_def split: option.splits)
  from cap_step[OF 0] obtain st1 where c1: "snd st1 1 \<noteq> None"
    and 1: "rmatch False ?n ?R1 Some st1 = Some st'"
    by blast
  from cap_step[OF 1] obtain st2
    where p2: "\<forall>g'. g' \<noteq> 2 \<and> g' \<notin> groups_of ?A \<longrightarrow> snd st2 g' = snd st1 g'"
    and 2: "rmatch False ?n ?R2 Some st2 = Some st'"
    by blast
  from seq_step[OF 2] obtain st3
    where p3: "\<forall>g. g \<notin> groups_of (Plus Space) \<longrightarrow> snd st3 g = snd st2 g"
    and 3: "rmatch False ?n ?R3 Some st3 = Some st'"
    by blast
  have e3: "rmatch False ?n ?R3 Some (fst st3, snd st3) = Some st'"
    using 3 by (simp only: prod.collapse)
  note d = test_digits[OF e3]
  have "snd st' 1 = snd st3 1" using d by simp
  also have "\<dots> = snd st2 1" using p3 by simp
  also have "\<dots> = snd st1 1" using p2 by simp
  finally have "snd st' 1 \<noteq> None" using c1 by simp
  with d m show ?thesis by auto
qed

lemma test_match_first:
  assumes "string_match l TEST_RESULT_REGEX = Some m"
  shows "\<exists>x xs. dropWhile is_space l = x # xs \<and> (x = 0x6F \<or> x = 0x6E)"
proof -
  let ?R2 = "Seq (Plus Space) (Seq (Cap 3 (Plus Digit)) test_tail)"
  let ?R1 = "Seq (Cap 2 (Alt (Lit (js ''ok'')) (Lit (js ''not ok'')))) ?R2"
  let ?s = "dropWhile is_space l"
  from assms obtain st' where
    0: "rmatch False (length l) (Seq (Cap 1 (Star Space)) ?R1) Some (l, \<lambda>g. None) = Some st'"
    unfolding string_match_def exec_bol[OF test_pattern]
    by (auto simp: TEST_RESULT_REGEX_def split: option.splits)
  have "rmatch False (length l) (Seq (Cap 1 (Star Space)) ?R1) Some (l, \<lambda>g. None) =
        rmatch False (length l) ?R1 Some (?s, (\<lambda>g. None)(1 \<mapsto> takeWhile is_space l))"
    by (subst seq_cap_star_det) (simp_all add: js_def class_neq)
  with 0 have "rmatch False (length l) ?R1 Some (?s, (\<lambda>g. None)(1 \<mapsto> takeWhile is_space l)) = Some st'"
    by simp
  note 1 = this[unfolded seq_cap_alt_lit]
  have "take (length (js ''ok'')) ?s = js ''ok'' \<or> take (length (js ''not ok'')) ?s = js ''not ok''"
    using 1 by (cases "take (length (js ''ok'')) ?s = js ''ok''";
                cases "take (length (js ''not ok'')) ?s = js ''not ok''") simp_all
  then show ?thesis
    by (cases ?s) (auto simp: js_def)
qed

lemma plan_match_first:
  assumes "string_match l TEST_PLAN_REGEX = Some m"
  shows "\<exists>x xs. dropWhile is_space l = x # xs \<and> is_digit x"
  using assms unfolding plan_match_det
  by (cases "dropWhile is_space l") (auto split: if_splits)


subsection \<open>Searching, and the groups of the duration pattern\<close>


lemma search_some:
  "search re n i s = Some m \<Longrightarrow>
   \<exists>j st'. j \<le> length s \<and> index m = i + j \<and> caps m = snd st' \<and>
     matched m = take (length (drop j s) - length (fst st')) (drop j s) \<and>
     rmatch (ignoreCase re) n (pattern re) Some (drop j s, \<lambda>g. None) = Some st' \<and>
     (\<forall>j' < j. rmatch (ignoreCase re) n (pattern re) Some (drop j' s, \<lambda>g. None) = None)"
proof (induction s arbitrary: i)
  case Nil
  then show ?case
    by (subst (asm) search.simps) (auto split: option.splits)
next
  case (Cons c cs)
  show ?case
  proof (cases "rmatch (ignoreCase re) n (pattern re) Some (c # cs, \<lambda>g. None)")
    case None
    with Cons.prems have "search re n (Suc i) cs = Some m"
      by (subst (asm) search.simps) simp
    from Cons.IH[OF this] obtain j st' where j: "j \<le> length cs" "index m = Suc i + j"
      "caps m = snd st'" "matched m = take (length (drop j cs) - length (fst st')) (drop j cs)"
      "rmatch (ignoreCase re) n (pattern re) Some (drop j cs, \<lambda>g. None) = Some st'"
      "\<forall>j' < j. rmatch (ignoreCase re) n (pattern re) Some (drop j' cs, \<lambda>g. None) = None"
      by blast
    have "\<forall>j' < Suc j. rmatch (ignoreCase re) n (pattern re) Some (drop j' (c # cs), \<lambda>g. None) = None"
      using None j(6) by (auto simp: less_Suc_eq_0_disj)
    with j(1-5) show ?thesis
      by (intro exI[of _ "Suc j"] exI[of _ st']) simp
  next
    case (Some st')
    with Cons.prems have "m = \<lparr>index = i, matched = take (length (c # cs) - length (fst st')) (c # cs), caps = snd st'\<rparr>"
      by (subst (asm) search.simps) simp
    with Some show ?thesis
      by (intro exI[of _ 0] exI[of _ st']) simp
  qed
qed

lemma search_none:
  "(\<forall>j \<le> length s. rmatch (ignoreCase re) n (pattern re) Some (drop j s, \<lambda>g. None) = None) \<Longrightarrow>
   search re n i s = None"
proof (induction s arbitrary: i)
  case Nil
  then show ?case by (subst search.simps) simp
next
  case (Cons c cs)
  have 0: "rmatch (ignoreCase re) n (pattern re) Some (c # cs, \<lambda>g. None) = None"
    using Cons.prems[rule_format, of 0] by simp
  have "\<forall>j \<le> length cs. rmatch (ignoreCase re) n (pattern re) Some (drop j cs, \<lambda>g. None) = None"
    using Cons.prems by (metis drop_Suc_Cons length_Cons Suc_le_mono)
  from Cons.IH[OF this] 0 show ?case
    by (subst search.simps) simp
qed

lemma search_found:
  assumes "p \<le> length s"
    and "\<forall>j < p. rmatch (ignoreCase re) n (pattern re) Some (drop j s, \<lambda>g. None) = None"
    and "rmatch (ignoreCase re) n (pattern re) Some (drop p s, \<lambda>g. None) = Some st'"
  shows "search re n i s =
           Some \<lparr>index = i + p, matched = take (length (drop p s) - length (fst st')) (drop p s),
                 caps = snd st'\<rparr>"
  using assms
proof (induction p arbitrary: s i)
  case 0
  then show ?case by (subst search.simps) simp
next
  case (Suc p)
  then obtain c cs where s: "s = c # cs" by (cases s) auto
  have 0: "rmatch (ignoreCase re) n (pattern re) Some (c # cs, \<lambda>g. None) = None"
    using Suc.prems(2)[rule_format, of 0] s by simp
  have "\<forall>j < p. rmatch (ignoreCase re) n (pattern re) Some (drop j cs, \<lambda>g. None) = None"
    using Suc.prems(2) s by (metis drop_Suc_Cons Suc_less_eq)
  from Suc.IH[OF _ this, of "Suc i"] Suc.prems(1,3) s 0 show ?case
    by (subst search.simps) simp
qed

lemma duration_pattern:
  "pattern DURATION_REGEX =
     Seq (Plus Space) (Seq (Lit (js ''in'')) (Seq (Plus Space)
       (Seq (Cap 1 (seq [Plus Digit, Opt (seq [Lit (js ''.''), Plus Digit])]))
         (Seq (Cap 2 (Alt (Lit (js ''ms'')) (Lit (js ''s'')))) duration_pattern_tail))))"
  by (simp add: DURATION_REGEX_def duration_pattern_tail_def)

lemma duration_match_caps:
  assumes "string_match d DURATION_REGEX = Some m"
  shows "caps m 2 \<noteq> None"
proof -
  let ?n = "length d"
  let ?R4 = "Seq (Cap 2 (Alt (Lit (js ''ms'')) (Lit (js ''s'')))) duration_pattern_tail"
  let ?R3 = "Seq (Cap 1 (seq [Plus Digit, Opt (seq [Lit (js ''.''), Plus Digit])])) ?R4"
  let ?R2 = "Seq (Plus Space) ?R3"
  let ?R1 = "Seq (Lit (js ''in'')) ?R2"
  from assms have "search DURATION_REGEX ?n 0 d = Some m"
    by (simp add: string_match_def regexp_exec_def)
  from search_some[OF this] obtain st0 st' where m: "caps m = snd st'"
    and 0: "rmatch (ignoreCase DURATION_REGEX) ?n (Seq (Plus Space) ?R1) Some st0 = Some st'"
    unfolding duration_pattern by blast
  from seq_step[OF 0] obtain st1 where 1: "rmatch (ignoreCase DURATION_REGEX) ?n ?R1 Some st1 = Some st'"
    by blast
  from seq_step[OF 1] obtain st2 where 2: "rmatch (ignoreCase DURATION_REGEX) ?n ?R2 Some st2 = Some st'"
    by blast
  from seq_step[OF 2] obtain st3 where 3: "rmatch (ignoreCase DURATION_REGEX) ?n ?R3 Some st3 = Some st'"
    by blast
  from cap_step[OF 3] obtain st4 where 4: "rmatch (ignoreCase DURATION_REGEX) ?n ?R4 Some st4 = Some st'"
    by blast
  from cap_step[OF 4] obtain st5 where c5: "snd st5 2 \<noteq> None"
    and 5: "rmatch (ignoreCase DURATION_REGEX) ?n duration_pattern_tail Some st5 = Some st'"
    by blast
  from rmatch_preserves[OF 5] have "snd st' 2 = snd st5 2"
    by (simp add: duration_pattern_tail_def)
  with c5 m show ?thesis by simp
qed


subsection \<open>The pattern of the trimmed plan line, and trimming\<close>


lemma trimmed_match_det:
  "string_match s TRIMMED_PLAN_REGEX =
     (case s of
        [] \<Rightarrow> None
      | x # xs \<Rightarrow>
          if is_digit x \<and> take 2 (dropWhile is_digit xs) = js ''..''
          then (case drop 2 (dropWhile is_digit xs) of
                  [] \<Rightarrow> None
                | y # ys \<Rightarrow>
                    if is_digit y \<and> (\<forall>c\<in>set ys. is_digit c)
                    then Some \<lparr>index = 0, matched = s,
                               caps = (\<lambda>g. None)(1 \<mapsto> x # takeWhile is_digit xs, 2 \<mapsto> y # ys)\<rparr>
                    else None)
          else None)"
  unfolding string_match_def
  apply (subst exec_bol[where r = "seq [Cap 1 (Plus Digit), Lit (js ''..''), Cap 2 (Plus Digit), Eol]"])
   apply (simp add: TRIMMED_PLAN_REGEX_def)
  apply (simp add: TRIMMED_PLAN_REGEX_def seq_det space_not_digit class_neq js_dots
      del: rmatch.simps(8) cong: list.case_cong if_cong)
  apply (auto split: list.splits simp: js_dots numeral_2_eq_2 takeWhile_eq_all_conv[THEN iffD2] dropWhile_eq_Nil_conv[THEN iffD2])
  done

lemma plan_match_some:
  "(string_match l TEST_PLAN_REGEX \<noteq> None) =
     (case dropWhile is_space l of
        [] \<Rightarrow> False
      | x # xs \<Rightarrow> is_digit x \<and> take 2 (dropWhile is_digit xs) = js ''..'' \<and>
          (case drop 2 (dropWhile is_digit xs) of
             [] \<Rightarrow> False
           | y # ys \<Rightarrow> is_digit y \<and> (\<forall>c\<in>set ys. is_digit c)))"
proof (cases "dropWhile is_space l")
  case Nil
  show ?thesis unfolding plan_match_det Nil list.case by simp
next
  case 1: (Cons x xs)
  show ?thesis
  proof (cases "drop 2 (dropWhile is_digit xs)")
    case Nil
    show ?thesis unfolding plan_match_det 1 list.case Nil by simp
  next
    case (Cons y ys)
    show ?thesis unfolding plan_match_det 1 list.case Cons by auto
  qed
qed

lemma trimmed_match_some:
  "(string_match s TRIMMED_PLAN_REGEX \<noteq> None) =
     (case s of
        [] \<Rightarrow> False
      | x # xs \<Rightarrow> is_digit x \<and> take 2 (dropWhile is_digit xs) = js ''..'' \<and>
          (case drop 2 (dropWhile is_digit xs) of
             [] \<Rightarrow> False
           | y # ys \<Rightarrow> is_digit y \<and> (\<forall>c\<in>set ys. is_digit c)))"
proof (cases s)
  case Nil
  show ?thesis unfolding trimmed_match_det Nil list.case by simp
next
  case 1: (Cons x xs)
  show ?thesis
  proof (cases "drop 2 (dropWhile is_digit xs)")
    case Nil
    show ?thesis unfolding trimmed_match_det 1 list.case Nil by simp
  next
    case (Cons y ys)
    show ?thesis unfolding trimmed_match_det 1 list.case Cons by auto
  qed
qed

lemma plan_match_trimStart:
  "(string_match l TEST_PLAN_REGEX \<noteq> None) = (string_match (trimStart l) TRIMMED_PLAN_REGEX \<noteq> None)"
  unfolding plan_match_some trimmed_match_some trimStart_def ..

lemma plan_match_iff:
  "(string_match l TEST_PLAN_REGEX \<noteq> None) =
     (\<exists>ws a b. l = ws @ a @ js ''..'' @ b \<and> (\<forall>c\<in>set ws. is_space c) \<and> a \<noteq> [] \<and>
        (\<forall>c\<in>set a. is_digit c) \<and> b \<noteq> [] \<and> (\<forall>c\<in>set b. is_digit c))"
proof
  assume "string_match l TEST_PLAN_REGEX \<noteq> None"
  then obtain m where "string_match l TEST_PLAN_REGEX = Some m" by auto
  from plan_match_sound[OF this] show "\<exists>ws a b. l = ws @ a @ js ''..'' @ b \<and> (\<forall>c\<in>set ws. is_space c) \<and> a \<noteq> [] \<and>
        (\<forall>c\<in>set a. is_digit c) \<and> b \<noteq> [] \<and> (\<forall>c\<in>set b. is_digit c)"
    by blast
next
  assume "\<exists>ws a b. l = ws @ a @ js ''..'' @ b \<and> (\<forall>c\<in>set ws. is_space c) \<and> a \<noteq> [] \<and>
        (\<forall>c\<in>set a. is_digit c) \<and> b \<noteq> [] \<and> (\<forall>c\<in>set b. is_digit c)"
  then obtain ws a b where "l = ws @ a @ js ''..'' @ b" "\<forall>c\<in>set ws. is_space c" "a \<noteq> []"
        "\<forall>c\<in>set a. is_digit c" "b \<noteq> []" "\<forall>c\<in>set b. is_digit c"
    by blast
  with plan_match_shape[of ws a b] show "string_match l TEST_PLAN_REGEX \<noteq> None" by simp
qed

lemma trim_decomp:
  "\<exists>ws ws'. l = ws @ trim l @ ws' \<and> (\<forall>c\<in>set ws. is_space c) \<and> (\<forall>c\<in>set ws'. is_space c) \<and>
     dropWhile is_space l = trim l @ ws'"
proof -
  let ?d = "dropWhile is_space l"
  let ?w = "rev (takeWhile is_space (rev ?d))"
  have "rev (takeWhile is_space (rev ?d) @ dropWhile is_space (rev ?d)) = ?d"
    by (simp only: takeWhile_dropWhile_id rev_rev_ident)
  then have d: "?d = trim l @ ?w" by (simp only: rev_append trim_def)
  have "l = takeWhile is_space l @ ?d" by simp
  then have l: "l = takeWhile is_space l @ trim l @ ?w" using d by simp
  have w: "\<forall>c\<in>set ?w. is_space c" by (auto dest: set_takeWhileD)
  have w0: "\<forall>c\<in>set (takeWhile is_space l). is_space c" by (auto dest: set_takeWhileD)
  show ?thesis
    apply (rule exI[of _ "takeWhile is_space l"])
    apply (rule exI[of _ ?w])
    using l w w0 d by blast
qed

lemma trim_core:
  assumes "\<forall>c\<in>set ws. is_space c" "\<forall>c\<in>set ws'. is_space c" "core \<noteq> []"
    "\<not> is_space (hd core)" "\<not> is_space (last core)"
  shows "trim (ws @ core @ ws') = core"
proof -
  have 1: "dropWhile is_space (ws @ core @ ws') = core @ ws'"
    using assms(1,3,4) by (intro dropWhile_stop) auto
  have 2: "dropWhile is_space (rev ws' @ rev core) = rev core"
    using assms(2,3,5) by (intro dropWhile_stop) (auto simp: hd_rev)
  show ?thesis by (simp add: trim_def 1 2)
qed



lemma trim_no_lead: "dropWhile is_space (trim l) = trim l"
proof (cases "trim l")
  case Nil
  then show ?thesis by simp
next
  case (Cons x xs)
  from trim_decomp[of l] obtain ws' where d: "dropWhile is_space l = trim l @ ws'" by blast
  have "\<not> is_space (hd (dropWhile is_space l))"
    using d Cons by (intro hd_dropWhile) auto
  then have "\<not> is_space x" using d Cons by simp
  then show ?thesis using Cons by simp
qed

lemma trimmed_as_plan:
  "(string_match (trim l) TRIMMED_PLAN_REGEX \<noteq> None) = (string_match (trim l) TEST_PLAN_REGEX \<noteq> None)"
  unfolding plan_match_some trimmed_match_some trim_no_lead ..

lemma digits_core:
  assumes "a \<noteq> []" "\<forall>c\<in>set a. is_digit c" "b \<noteq> []" "\<forall>c\<in>set b. is_digit c"
  shows "a @ js ''..'' @ b \<noteq> []" "\<not> is_space (hd (a @ js ''..'' @ b))"
    "\<not> is_space (last (a @ js ''..'' @ b))"
proof -
  have "is_digit (hd a)" "is_digit (last b)" using assms by auto
  then show "\<not> is_space (hd (a @ js ''..'' @ b))" "\<not> is_space (last (a @ js ''..'' @ b))"
    using assms(1,3) space_not_digit by auto
  show "a @ js ''..'' @ b \<noteq> []" using assms(1) by simp
qed


subsection \<open>Testing for a literal without regard to case\<close>


lemma search_None_D:
  "search re n i s = None \<Longrightarrow> j \<le> length s \<Longrightarrow>
   rmatch (ignoreCase re) n (pattern re) Some (drop j s, \<lambda>g. None) = None"
proof (induction s arbitrary: i j)
  case Nil
  then show ?case by (subst (asm) search.simps) (auto split: option.splits)
next
  case (Cons c cs)
  have "search re n i (c # cs) =
      (case rmatch (ignoreCase re) n (pattern re) Some (c # cs, \<lambda>g. None) of
         Some st' \<Rightarrow> Some \<lparr>index = i, matched = take (length (c # cs) - length (fst st')) (c # cs),
                           caps = snd st'\<rparr>
       | None \<Rightarrow> search re n (Suc i) cs)"
    by (subst search.simps) (simp split: option.splits)
  with Cons.prems(1) have 0: "rmatch (ignoreCase re) n (pattern re) Some (c # cs, \<lambda>g. None) = None"
    and 1: "search re n (Suc i) cs = None"
    by (auto split: option.splits)
  show ?case
  proof (cases j)
    case 0
    with \<open>rmatch (ignoreCase re) n (pattern re) Some (c # cs, \<lambda>g. None) = None\<close> show ?thesis by simp
  next
    case (Suc j')
    with Cons.IH[OF 1, of j'] Cons.prems(2) show ?thesis by simp
  qed
qed

lemma search_iff:
  "(search re n i s \<noteq> None) =
     (\<exists>j \<le> length s. rmatch (ignoreCase re) n (pattern re) Some (drop j s, \<lambda>g. None) \<noteq> None)"
proof
  assume "search re n i s \<noteq> None"
  then obtain m where "search re n i s = Some m" by auto
  from search_some[OF this] obtain j where "j \<le> length s"
    "\<exists>st'. rmatch (ignoreCase re) n (pattern re) Some (drop j s, \<lambda>g. None) = Some st'"
    by (elim exE conjE) (rule that, assumption, rule exI, assumption)
  then show "\<exists>j \<le> length s. rmatch (ignoreCase re) n (pattern re) Some (drop j s, \<lambda>g. None) \<noteq> None"
    by (intro exI[of _ j]) (simp only: option.distinct not_None_eq simp_thms)
next
  assume "\<exists>j \<le> length s. rmatch (ignoreCase re) n (pattern re) Some (drop j s, \<lambda>g. None) \<noteq> None"
  then obtain j where j: "j \<le> length s"
    "rmatch (ignoreCase re) n (pattern re) Some (drop j s, \<lambda>g. None) \<noteq> None"
    by (elim exE conjE)
  show "search re n i s \<noteq> None"
  proof
    assume "search re n i s = None"
    from search_None_D[OF this j(1)] j(2) show False by (rule notE[rotated])
  qed
qed

lemma list_ex_upto: "list_ex P [0..<Suc n] = (\<exists>j \<le> n. P j)"
  unfolding list_ex_iff set_upt by (auto simp: less_Suc_eq_le simp del: upt_Suc)

lemma lit_pattern_match:
  "(rmatch True n (Lit needle) Some (s, c) \<noteq> None) =
     (map canonicalize (take (length needle) s) = map canonicalize needle)"
proof -
  have "length needle \<le> length s"
    if "map canonicalize (take (length needle) s) = map canonicalize needle"
    using arg_cong[OF that, of length] by simp
  then show ?thesis by (auto simp: lit_ci)
qed

lemma test_ci:
  assumes "pattern re = Lit needle" "ignoreCase re = True"
  shows "regexp_test re s = contains_ci needle s"
  unfolding regexp_test_def regexp_exec_def search_iff assms lit_pattern_match contains_ci_def
    list_ex_upto ..

lemma directive_tests:
  "regexp_test TODO_REGEX l = contains_ci (js ''# TODO'') l"
  "regexp_test SKIP_REGEX l = contains_ci (js ''# SKIP'') l"
  by (rule test_ci; simp add: TODO_REGEX_def SKIP_REGEX_def)+

lemma contains_ci_cong:
  assumes "map canonicalize l = map canonicalize l'"
  shows "contains_ci needle l = contains_ci needle l'"
proof -
  have len: "length l = length l'" using arg_cong[OF assms, of length] by simp
  have "map canonicalize (take k (drop j l)) = map canonicalize (take k (drop j l'))" for k j
  proof -
    have "map canonicalize (take k (drop j l)) = take k (drop j (map canonicalize l))"
      by (simp add: take_map drop_map)
    also have "\<dots> = take k (drop j (map canonicalize l'))" by (simp only: assms)
    also have "\<dots> = map canonicalize (take k (drop j l'))"
      by (simp add: take_map drop_map)
    finally show ?thesis .
  qed
  then show ?thesis unfolding contains_ci_def list_ex_upto len by simp
qed

lemma contains_ci_middle:
  assumes "map canonicalize mid = map canonicalize needle"
  shows "contains_ci needle (pre @ mid @ post)"
proof -
  have len: "length mid = length needle" using arg_cong[OF assms, of length] by simp
  have "map canonicalize (take (length needle) (drop (length pre) (pre @ mid @ post))) = map canonicalize needle"
    using assms len by simp
  moreover have "length pre \<le> length (pre @ mid @ post)" by simp
  ultimately show ?thesis unfolding contains_ci_def list_ex_upto by blast
qed


lemma plan_not_test:
  assumes "string_match l TEST_PLAN_REGEX = Some m"
  shows "string_match l TEST_RESULT_REGEX = None"
proof (rule ccontr)
  assume "string_match l TEST_RESULT_REGEX \<noteq> None"
  then obtain m' where "string_match l TEST_RESULT_REGEX = Some m'" by auto
  from test_match_first[OF this] obtain x xs where x: "dropWhile is_space l = x # xs"
    "x = 0x6F \<or> x = 0x6E" by blast
  from plan_match_first[OF assms] obtain y ys where y: "dropWhile is_space l = y # ys" "is_digit y"
    by blast
  from x y show False by auto
qed

section \<open>Facts about the grouping parser\<close>

subsection \<open>No line makes the parser fail\<close>


lemma extract_duration_total: "\<exists>dur descr. extract_duration d = Inr (dur, descr)"
proof (cases "string_match d DURATION_REGEX")
  case None
  then show ?thesis by (simp add: extract_duration_def)
next
  case (Some m)
  from duration_match_caps[OF Some] obtain u where "caps m 2 = Some u" by auto
  with Some show ?thesis by (simp add: extract_duration_def Let_def)
qed

lemma parseInt10_digits:
  "ds \<noteq> [] \<Longrightarrow> \<forall>x\<in>set ds. is_digit x \<Longrightarrow> parseInt10 ds = Num (digits_value ds)"
  by (simp add: parseInt10_def takeWhile_eq_all_conv[THEN iffD2])

lemma ensure_group_some: "\<exists>g. currentGroup (ensure_group i st) = Some g"
  by (cases "currentGroup st") (auto simp: ensure_group_def)

lemma ensure_group_fields [simp]:
  "groups (ensure_group i st) = groups st"
  "heap (ensure_group i st) = heap st"
  "currentTest (ensure_group i st) = currentTest st"
  "lastTestNumber (ensure_group i st) = lastTestNumber st"
  by (auto simp: ensure_group_def split: option.splits)

lemma reset_group_fields [simp]:
  "heap (reset_group n i st) = heap st"
  "currentTest (reset_group n i st) = currentTest st"
  "lastTestNumber (reset_group n i st) = lastTestNumber st"
  by (auto simp: reset_group_def split: option.splits)

lemma test_line_result:
  assumes "string_match l TEST_RESULT_REGEX = Some m"
  shows "\<exists>k t g.
           parseInt10 (to_str (caps m 3)) = Num k \<and>
           testNumber t = Num k \<and> line t = i \<and> fullLine t = l \<and> output t = [] \<and>
           hasTodo t = regexp_test TODO_REGEX l \<and> hasSkip t = regexp_test SKIP_REGEX l \<and>
           passed t = (caps m 2 = Some (js ''ok'')) \<and>
           extract_duration (clean_description (case caps m 4 of None \<Rightarrow> [] | Some r \<Rightarrow> r) (Num k))
             = Inr (duration t, description t) \<and>
           currentGroup (ensure_group i (reset_group (Num k) i st)) = Some g \<and>
           test_line m l i st =
             Inr ((ensure_group i (reset_group (Num k) i st))
                   \<lparr>heap := heap st @ [t],
                    currentTest := Some (length (heap st)),
                    currentGroup := Some (g\<lparr>tests := tests g @ [length (heap st)]\<rparr>),
                    lastTestNumber := Num k\<rparr>)"
proof -
  from test_match_caps[OF assms] obtain g1 ds where c: "caps m 1 = Some g1" "caps m 3 = Some ds"
    and ds: "ds \<noteq> []" "\<forall>x\<in>set ds. is_digit x" by blast
  have n: "parseInt10 (to_str (caps m 3)) = Num (digits_value ds)"
    using c ds by (simp add: parseInt10_digits)
  obtain dur descr where e: "extract_duration (clean_description
       (case caps m 4 of None \<Rightarrow> [] | Some r \<Rightarrow> r) (Num (digits_value ds))) = Inr (dur, descr)"
    using extract_duration_total by blast
  obtain g where g: "currentGroup (ensure_group i (reset_group (Num (digits_value ds)) i st)) = Some g"
    using ensure_group_some by blast
  show ?thesis
    apply (rule exI[of _ "digits_value ds"])
    apply (rule exI[of _ "\<lparr>line = i, indent = length g1, passed = (caps m 2 = Some (js ''ok'')),
                        testNumber = Num (digits_value ds), description = descr, duration = dur,
                        hasTodo = regexp_test TODO_REGEX l, hasSkip = regexp_test SKIP_REGEX l,
                        fullLine = l, output = []\<rparr>"])
    apply (rule exI[of _ g])
    using c n e g by (simp add: test_line_def Let_def)
qed

lemma parse_line_total: "\<exists>st'. parse_line l i st = Inr st'"
proof (cases "string_match l TEST_PLAN_REGEX")
  case (Some m)
  then show ?thesis by (simp add: parse_line_def)
next
  case None
  show ?thesis
  proof (cases "string_match l TEST_RESULT_REGEX")
    case None
    with \<open>string_match l TEST_PLAN_REGEX = None\<close> show ?thesis by (simp add: parse_line_def)
  next
    case (Some m)
    from test_line_result[OF Some, of i st] obtain st' where "test_line m l i st = Inr st'"
      by blast
    with Some \<open>string_match l TEST_PLAN_REGEX = None\<close> show ?thesis by (simp add: parse_line_def)
  qed
qed


lemma parse_loop_total: "\<exists>st'. parse_loop lines i st = Inr st'"
proof (induction lines i st rule: parse_loop.induct)
  case (1 lines i st)
  show ?case
  proof (cases "i < length lines")
    case True
    obtain st1 where s: "parse_line (lines ! i) i st = Inr st1"
      using parse_line_total by blast
    from "1.IH"[OF True s] s True show ?thesis
      by (subst parse_loop.simps) simp
  next
    case False
    then show ?thesis by (subst parse_loop.simps) simp
  qed
qed

lemma parse_loop_take:
  "i \<le> k \<Longrightarrow> k \<le> length lines \<Longrightarrow>
   parse_loop lines i st =
     (case parse_loop (take k lines) i st of Inl e \<Rightarrow> Inl e | Inr st1 \<Rightarrow> parse_loop lines k st1)"
proof (induction "k - i" arbitrary: i st)
  case 0
  then have "i = k" by simp
  then show ?case
    using "0.prems" by (simp add: parse_loop.simps[of "take k lines" k st])
next
  case (Suc d)
  then have il: "i < k" "i < length lines" "i < length (take k lines)" by auto
  show ?case
  proof (cases "parse_line (lines ! i) i st")
    case (Inl e)
    with il show ?thesis
      by (simp add: parse_loop.simps[of lines i st] parse_loop.simps[of "take k lines" i st])
  next
    case (Inr st1)
    have "parse_loop lines (Suc i) st1 =
       (case parse_loop (take k lines) (Suc i) st1 of Inl e \<Rightarrow> Inl e | Inr st1 \<Rightarrow> parse_loop lines k st1)"
      using Suc.hyps(1)[of "Suc i" st1] Suc.hyps(2) Suc.prems il by simp
    with Inr il show ?thesis
      by (simp add: parse_loop.simps[of lines i st] parse_loop.simps[of "take k lines" i st])
  qed
qed

lemma parse_loop_snoc:
  assumes "k < length lines"
  shows "parse_loop (take (Suc k) lines) 0 st =
     (case parse_loop (take k lines) 0 st of
        Inl e \<Rightarrow> Inl e
      | Inr st1 \<Rightarrow> parse_line (lines ! k) k st1)"
proof -
  have 1: "parse_loop (take (Suc k) lines) 0 st =
     (case parse_loop (take k (take (Suc k) lines)) 0 st of
        Inl e \<Rightarrow> Inl e | Inr st1 \<Rightarrow> parse_loop (take (Suc k) lines) k st1)"
    using assms by (intro parse_loop_take) auto
  have 2: "take k (take (Suc k) lines) = take k lines" by (simp add: min_def)
  have 3: "parse_loop (take (Suc k) lines) k st1 = parse_line (lines ! k) k st1" for st1
    using assms
    by (simp add: parse_loop.simps[of "take (Suc k) lines" k st1]
        parse_loop.simps[of "take (Suc k) lines" "Suc k"] split: sum.splits)
  show ?thesis unfolding 1 2 3 ..
qed


subsection \<open>The invariant of the loop\<close>


lemma group_ok_empty [simp]: "tests g = [] \<Longrightarrow> group_ok h g"
  by (simp add: group_ok_def)

lemma map_heap_append:
  "\<forall>r\<in>set rs. r < length h \<Longrightarrow> map (\<lambda>r. f ((h @ [t]) ! r)) rs = map (\<lambda>r. f (h ! r)) rs"
  by (induction rs) (auto simp: nth_append)

lemma group_ok_append: "group_ok h g \<Longrightarrow> group_ok (h @ [t]) g"
  unfolding group_ok_def
  by (auto simp: map_heap_append less_Suc_eq)

lemma map_heap_update:
  "testNumber t = testNumber (h ! r) \<Longrightarrow>
   map (\<lambda>r'. testNumber (h[r := t] ! r')) rs = map (\<lambda>r'. testNumber (h ! r')) rs"
  by (cases "r < length h") (auto simp: nth_list_update list_update_beyond)

lemma strict_sorted_le_last:
  "sorted_wrt (<) ks \<Longrightarrow> x \<in> set ks \<Longrightarrow> (x::nat) \<le> last ks"
  by (induction ks) (auto simp: less_imp_le)

lemma group_ok_update:
  "group_ok h g \<Longrightarrow> testNumber t = testNumber (h ! r) \<Longrightarrow> group_ok (h[r := t]) g"
  unfolding group_ok_def by (simp add: map_heap_update)

lemma group_ok_snoc:
  assumes "group_ok h g" and "tests g \<noteq> [] \<Longrightarrow> \<exists>j. testNumber (h ! last (tests g)) = Num j \<and> j < k"
    and "testNumber t = Num k"
  shows "group_ok (h @ [t]) (g\<lparr>tests := tests g @ [length h]\<rparr>)"
proof -
  from assms(1) obtain ks where r: "\<forall>r\<in>set (tests g). r < length h"
    and ks: "map (\<lambda>r. testNumber (h ! r)) (tests g) = map Num ks" "sorted_wrt (<) ks"
    unfolding group_ok_def by blast
  have len: "length ks = length (tests g)" using ks(1) by (metis length_map)
  have "\<forall>x\<in>set ks. x < k"
  proof (cases "tests g = []")
    case True
    with len show ?thesis by simp
  next
    case False
    then have ne: "ks \<noteq> []" using len by auto
    from assms(2)[OF False] obtain j where j: "testNumber (h ! last (tests g)) = Num j" "j < k"
      by blast
    have "last (map (\<lambda>r. testNumber (h ! r)) (tests g)) = Num (last ks)"
      using ks(1) ne by (simp add: last_map)
    then have "j = last ks" using j(1) False by (simp add: last_map)
    moreover have "\<forall>x\<in>set ks. x \<le> last ks"
      using ks(2) by (auto intro: strict_sorted_le_last)
    ultimately show ?thesis using j(2) by auto
  qed
  then have "sorted_wrt (<) (ks @ [k])" using ks(2) by (simp add: sorted_wrt_append)
  moreover have "map (\<lambda>r. testNumber ((h @ [t]) ! r)) (tests g @ [length h]) = map Num (ks @ [k])"
    using r ks(1) assms(3) by (simp add: map_heap_append)
  ultimately show ?thesis
    unfolding group_ok_def using r by (auto simp: less_Suc_eq simp del: map_append)
qed

lemma group_ok_last:
  assumes "group_ok h g" "tests g \<noteq> []"
  shows "\<exists>j. testNumber (h ! last (tests g)) = Num j"
proof -
  from assms(1) obtain ks where ks: "map (\<lambda>r. testNumber (h ! r)) (tests g) = map Num ks"
    unfolding group_ok_def by blast
  then have "length ks = length (tests g)" by (metis length_map)
  with assms(2) have ne: "ks \<noteq> []" by auto
  have "last (map (\<lambda>r. testNumber (h ! r)) (tests g)) = last (map Num ks)"
    using ks by simp
  then show ?thesis using assms(2) ne by (simp add: last_map)
qed





lemma inv_init: "inv init_state"
  by (simp add: inv_def init_state_def)

lemma inv_plan: "inv st \<Longrightarrow> inv (plan_line m i st)"
  by (auto simp: inv_def plan_line_def split: option.splits)

lemma inv_output: "inv st \<Longrightarrow> inv (output_line l st)"
  by (auto simp: inv_def output_line_def group_ok_update nth_list_update split: option.splits)

lemma prepared_cases:
  obtains
    (keep) g where "currentGroup st = Some g" "\<not> (number_le n (lastTestNumber st) \<and> tests g \<noteq> [])"
      "ensure_group i (reset_group n i st) = st"
  | (fresh) "currentGroup st = None"
      "ensure_group i (reset_group n i st) =
         st\<lparr>currentGroup := Some \<lparr>name = js ''Tests'', group_line = i, tests = []\<rparr>\<rparr>"
  | (reset) g where "currentGroup st = Some g" "number_le n (lastTestNumber st)" "tests g \<noteq> []"
      "ensure_group i (reset_group n i st) =
         st\<lparr>groups := groups st @ [g],
            currentGroup := Some \<lparr>name = js ''Tests (group '' @ nat_toString (length (groups st) + 2) @ js '')'',
                                  group_line = i, tests = []\<rparr>\<rparr>"
proof (cases "currentGroup st")
  case None
  then show ?thesis by (intro fresh) (auto simp: ensure_group_def reset_group_def)
next
  case (Some g)
  show ?thesis
  proof (cases "number_le n (lastTestNumber st) \<and> tests g \<noteq> []")
    case True
    with Some show ?thesis by (intro reset[of g]) (auto simp: ensure_group_def reset_group_def)
  next
    case False
    with Some show ?thesis by (intro keep[of g]) (auto simp: ensure_group_def reset_group_def)
  qed
qed

lemma inv_test:
  assumes "inv st" "string_match l TEST_RESULT_REGEX = Some m" "test_line m l i st = Inr st'"
  shows "inv st'"
proof -
  from test_line_result[OF assms(2), of i st]
  obtain k t g where t: "testNumber t = Num k"
    and g: "currentGroup (ensure_group i (reset_group (Num k) i st)) = Some g"
    and eq: "test_line m l i st =
             Inr ((ensure_group i (reset_group (Num k) i st))
                   \<lparr>heap := heap st @ [t],
                    currentTest := Some (length (heap st)),
                    currentGroup := Some (g\<lparr>tests := tests g @ [length (heap st)]\<rparr>),
                    lastTestNumber := Num k\<rparr>)"
    by blast
  have st': "st' = (ensure_group i (reset_group (Num k) i st))
                   \<lparr>heap := heap st @ [t],
                    currentTest := Some (length (heap st)),
                    currentGroup := Some (g\<lparr>tests := tests g @ [length (heap st)]\<rparr>),
                    lastTestNumber := Num k\<rparr>"
    using eq assms(3) by simp
  have old: "\<forall>g\<in>set (groups st). group_ok (heap st @ [t]) g"
    using assms(1) by (auto simp: inv_def intro: group_ok_append)
  show ?thesis
  proof (cases rule: prepared_cases[of st "Num k" i])
    case (keep g0)
    have gg: "g = g0" using g[unfolded keep(3)] keep(1) by simp
    have ok: "group_ok (heap st) g0"
      and lastn: "tests g0 \<noteq> [] \<Longrightarrow> lastTestNumber st = testNumber (heap st ! last (tests g0))"
      using assms(1) keep(1) by (auto simp: inv_def)
    have "\<exists>j. testNumber (heap st ! last (tests g0)) = Num j \<and> j < k" if ne: "tests g0 \<noteq> []"
    proof -
      from keep(2) ne have "\<not> number_le (Num k) (testNumber (heap st ! last (tests g0)))"
        using lastn by simp
      moreover from group_ok_last[OF ok ne] obtain j
        where "testNumber (heap st ! last (tests g0)) = Num j" by blast
      ultimately show ?thesis by auto
    qed
    then have "group_ok (heap st @ [t]) (g0\<lparr>tests := tests g0 @ [length (heap st)]\<rparr>)"
      using t by (intro group_ok_snoc[OF ok]) auto
    then show ?thesis
      using old t unfolding st' keep(3) gg
      by (simp add: inv_def)
  next
    case fresh
    have gg: "tests g = []" using g[unfolded fresh(2)] by auto
    have "group_ok (heap st @ [t]) (g\<lparr>tests := tests g @ [length (heap st)]\<rparr>)"
      using t by (intro group_ok_snoc) (auto simp: gg)
    then show ?thesis
      using old t unfolding st' fresh(2)
      by (simp add: inv_def)
  next
    case (reset g0)
    have gg: "tests g = []" using g[unfolded reset(4)] by auto
    have "group_ok (heap st) g0" using assms(1) reset(1) by (simp add: inv_def)
    then have 1: "group_ok (heap st @ [t]) g0" by (rule group_ok_append)
    have "group_ok (heap st @ [t]) (g\<lparr>tests := tests g @ [length (heap st)]\<rparr>)"
      using t by (intro group_ok_snoc) (auto simp: gg)
    then show ?thesis
      using old 1 t unfolding st' reset(4)
      by (simp add: inv_def)
  qed
qed

lemma inv_parse_line:
  assumes "inv st" "parse_line l i st = Inr st'"
  shows "inv st'"
proof (cases "string_match l TEST_PLAN_REGEX")
  case (Some m)
  with assms show ?thesis by (auto simp: parse_line_def inv_plan)
next
  case None
  show ?thesis
  proof (cases "string_match l TEST_RESULT_REGEX")
    case None
    with \<open>string_match l TEST_PLAN_REGEX = None\<close> assms show ?thesis
      by (auto simp: parse_line_def inv_output)
  next
    case (Some m)
    with \<open>string_match l TEST_PLAN_REGEX = None\<close> assms show ?thesis
      by (auto simp: parse_line_def intro: inv_test)
  qed
qed

lemma inv_parse_loop:
  "inv st \<Longrightarrow> parse_loop lines i st = Inr st' \<Longrightarrow> inv st'"
proof (induction lines i st rule: parse_loop.induct)
  case (1 lines i st)
  show ?case
  proof (cases "i < length lines")
    case True
    obtain st1 where s: "parse_line (lines ! i) i st = Inr st1"
      using parse_line_total by blast
    have "parse_loop lines (Suc i) st1 = Inr st'"
      using "1.prems"(2) True s by (simp add: parse_loop.simps[of lines i st])
    from "1.IH"[OF True s inv_parse_line[OF "1.prems"(1) s] this] show ?thesis .
  next
    case False
    with "1.prems" show ?thesis by (simp add: parse_loop.simps[of lines i st])
  qed
qed





lemma output_line_fields [simp]:
  "groups (output_line l st) = groups st"
  "currentGroup (output_line l st) = currentGroup st"
  "currentTest (output_line l st) = currentTest st"
  "lastTestNumber (output_line l st) = lastTestNumber st"
  "length (heap (output_line l st)) = length (heap st)"
  by (auto simp: output_line_def split: option.splits)

lemma empty_text:
  "parseTapContent [] = Inr []" "provideFoldingRanges [] = []" "provideFoldingRanges_stack [] = []"
  by code_simp+

subsection \<open>The state at a line, and test objects that no longer change\<close>


lemma state_before_Suc:
  "k < length lines \<Longrightarrow>
   state_before lines (Suc k) =
     (case state_before lines k of Inl e \<Rightarrow> Inl e | Inr st \<Rightarrow> parse_line (lines ! k) k st)"
  unfolding state_before_def by (rule parse_loop_snoc)


lemma state_before_rest:
  "k \<le> length lines \<Longrightarrow> state_before lines k = Inr st \<Longrightarrow>
   parse_loop lines 0 init_state = parse_loop lines k st"
  unfolding state_before_def using parse_loop_take[of 0 k lines init_state] by simp



lemma frozen_plan: "frozen n h st \<Longrightarrow> frozen n h (plan_line m i st)"
  by (simp add: frozen_def plan_line_def)

lemma frozen_output: "frozen n h st \<Longrightarrow> frozen n h (output_line l st)"
  by (auto simp: frozen_def output_line_def split: option.splits)

lemma frozen_test:
  assumes "frozen n h st" "string_match l TEST_RESULT_REGEX = Some m" "test_line m l i st = Inr st'"
  shows "frozen n h st'"
proof -
  from test_line_result[OF assms(2), of i st]
  obtain k t g where
    eq: "test_line m l i st =
             Inr ((ensure_group i (reset_group (Num k) i st))
                   \<lparr>heap := heap st @ [t],
                    currentTest := Some (length (heap st)),
                    currentGroup := Some (g\<lparr>tests := tests g @ [length (heap st)]\<rparr>),
                    lastTestNumber := Num k\<rparr>)"
    by blast
  with assms(1,3) show ?thesis by (auto simp: frozen_def)
qed

lemma frozen_parse_line:
  assumes "frozen n h st" "parse_line l i st = Inr st'"
  shows "frozen n h st'"
proof (cases "string_match l TEST_PLAN_REGEX")
  case (Some m)
  with assms show ?thesis by (auto simp: parse_line_def frozen_plan)
next
  case None
  show ?thesis
  proof (cases "string_match l TEST_RESULT_REGEX")
    case None
    with \<open>string_match l TEST_PLAN_REGEX = None\<close> assms show ?thesis
      by (auto simp: parse_line_def frozen_output)
  next
    case (Some m)
    with \<open>string_match l TEST_PLAN_REGEX = None\<close> assms show ?thesis
      by (auto simp: parse_line_def intro: frozen_test)
  qed
qed

lemma frozen_parse_loop:
  "frozen n h st \<Longrightarrow> parse_loop lines i st = Inr st' \<Longrightarrow> frozen n h st'"
proof (induction lines i st rule: parse_loop.induct)
  case (1 lines i st)
  show ?case
  proof (cases "i < length lines")
    case True
    obtain st1 where s: "parse_line (lines ! i) i st = Inr st1"
      using parse_line_total by blast
    have "parse_loop lines (Suc i) st1 = Inr st'"
      using "1.prems"(2) True s by (simp add: parse_loop.simps[of lines i st])
    from "1.IH"[OF True s frozen_parse_line[OF "1.prems"(1) s] this] show ?thesis .
  next
    case False
    with "1.prems" show ?thesis by (simp add: parse_loop.simps[of lines i st])
  qed
qed


section \<open>Facts about the folding providers\<close>



lemma fold_loop_unfold:
  "i < length lines \<Longrightarrow> fold_loop lines i st = fold_loop lines (Suc i) (fold_line lines i st)"
  "\<not> i < length lines \<Longrightarrow> fold_loop lines i st = st"
  by (subst fold_loop.simps, simp)+

lemma yaml_loop_unfold:
  "\<not> j < length lines \<Longrightarrow> yaml_loop lines i j rs = rs"
  "j < length lines \<Longrightarrow> trim (lines ! j) = js ''...'' \<Longrightarrow>
   yaml_loop lines i j rs = rs @ [\<lparr>range_start = int i, range_end = int j, kind = Some Region\<rparr>]"
  "j < length lines \<Longrightarrow> trim (lines ! j) \<noteq> js ''...'' \<Longrightarrow>
   yaml_loop lines i j rs = yaml_loop lines i (Suc j) rs"
  by (subst yaml_loop.simps, simp)+

lemma fold_loop_rule:
  assumes "I i st" "i \<le> length lines"
    and "\<And>k st. i \<le> k \<Longrightarrow> k < length lines \<Longrightarrow> I k st \<Longrightarrow> I (Suc k) (fold_line lines k st)"
  shows "I (length lines) (fold_loop lines i st)"
  using assms
proof (induction lines i st rule: fold_loop.induct)
  case (1 lines i st)
  show ?case
  proof (cases "i < length lines")
    case True
    have "I (length lines) (fold_loop lines (Suc i) (fold_line lines i st))"
    proof (rule "1.IH"[OF True])
      show "I (Suc i) (fold_line lines i st)" using "1.prems"(1,3) True by simp
      show "Suc i \<le> length lines" using True by simp
      show "\<And>k st. Suc i \<le> k \<Longrightarrow> k < length lines \<Longrightarrow> I k st \<Longrightarrow> I (Suc k) (fold_line lines k st)"
        using "1.prems"(3) by simp
    qed
    then show ?thesis using True by (simp add: fold_loop_unfold)
  next
    case False
    with "1.prems"(1,2) show ?thesis by (simp add: fold_loop_unfold)
  qed
qed

lemma yaml_loop_none:
  "(\<forall>k. j \<le> k \<and> k < length lines \<longrightarrow> trim (lines ! k) \<noteq> js ''...'') \<Longrightarrow>
   yaml_loop lines i j rs = rs"
proof (induction lines i j rs rule: yaml_loop.induct)
  case (1 lines i j rs)
  show ?case
  proof (cases "j < length lines")
    case True
    then have n: "trim (lines ! j) \<noteq> js ''...''" using "1.prems" by simp
    have "yaml_loop lines i (Suc j) rs = rs"
      using "1.IH"[OF True n] "1.prems" by simp
    then show ?thesis using True n by (simp add: yaml_loop_unfold)
  next
    case False
    then show ?thesis by (simp add: yaml_loop_unfold)
  qed
qed

lemma yaml_loop_first:
  "j0 \<le> j \<Longrightarrow> j < length lines \<Longrightarrow> trim (lines ! j) = js ''...'' \<Longrightarrow>
   (\<forall>k. j0 \<le> k \<and> k < j \<longrightarrow> trim (lines ! k) \<noteq> js ''...'') \<Longrightarrow>
   yaml_loop lines i j0 rs = rs @ [\<lparr>range_start = int i, range_end = int j, kind = Some Region\<rparr>]"
proof (induction lines i j0 rs rule: yaml_loop.induct)
  case (1 lines i j0 rs)
  have l: "j0 < length lines" using "1.prems" by simp
  show ?case
  proof (cases "trim (lines ! j0) = js ''...''")
    case True
    then have "j0 = j" using "1.prems" by (metis le_neq_implies_less order_refl)
    with True l show ?thesis by (simp add: yaml_loop_unfold)
  next
    case False
    then have "j0 \<noteq> j" using "1.prems"(3) by auto
    then have "Suc j0 \<le> j" using "1.prems"(1) by simp
    from "1.IH"[OF l False this "1.prems"(2,3)] "1.prems"(4)
    have "yaml_loop lines i (Suc j0) rs = rs @ [\<lparr>range_start = int i, range_end = int j, kind = Some Region\<rparr>]"
      by simp
    with False l show ?thesis by (simp add: yaml_loop_unfold)
  qed
qed

lemma yaml_loop_cases:
  "yaml_loop lines i j0 rs = rs \<or>
   (\<exists>j. yaml_loop lines i j0 rs = rs @ [\<lparr>range_start = int i, range_end = int j, kind = Some Region\<rparr>])"
proof (induction lines i j0 rs rule: yaml_loop.induct)
  case (1 lines i j0 rs)
  show ?case
  proof (cases "j0 < length lines")
    case True
    show ?thesis
    proof (cases "trim (lines ! j0) = js ''...''")
      case t: True
      with True show ?thesis by (simp add: yaml_loop_unfold)
    next
      case False
      with True "1.IH"[OF True False] show ?thesis by (simp add: yaml_loop_unfold)
    qed
  next
    case False
    then show ?thesis by (simp add: yaml_loop_unfold)
  qed
qed

lemma yaml_loop_cong:
  assumes "length lines = length lines'"
    and "\<forall>k < length lines. (trim (lines ! k) = js ''...'') = (trim (lines' ! k) = js ''...'')"
  shows "yaml_loop lines i j rs = yaml_loop lines' i j rs"
  using assms
proof (induction lines i j rs rule: yaml_loop.induct)
  case (1 lines i j rs)
  show ?case
  proof (cases "j < length lines")
    case True
    show ?thesis
    proof (cases "trim (lines ! j) = js ''...''")
      case t: True
      then have "trim (lines' ! j) = js ''...''" using "1.prems"(2) True by simp
      with t True "1.prems"(1) show ?thesis
        by (simp add: yaml_loop_unfold)
    next
      case False
      then have "trim (lines' ! j) \<noteq> js ''...''" using "1.prems"(2) True by simp
      with False True "1.prems"(1) "1.IH"[OF True False "1.prems"] show ?thesis
        by (simp add: yaml_loop_unfold)
    qed
  next
    case False
    with "1.prems"(1) show ?thesis
      by (simp add: yaml_loop_unfold)
  qed
qed

lemma test_line_not_blank:
  assumes "string_match l TEST_RESULT_REGEX = Some m"
  shows "trim l \<noteq> []" "trim l \<noteq> js ''---''" "trim l \<noteq> js ''...''"
proof -
  from test_match_first[OF assms] obtain x xs where d: "dropWhile is_space l = x # xs"
    and x: "x = 0x6F \<or> x = 0x6E" by blast
  from trim_decomp[of l] obtain ws' where t: "dropWhile is_space l = trim l @ ws'"
    "\<forall>c\<in>set ws'. is_space c" by blast
  have nx: "\<not> is_space x" using x by auto
  show ne: "trim l \<noteq> []"
  proof
    assume "trim l = []"
    with t d have "x \<in> set ws'" by auto
    with t(2) nx show False by blast
  qed
  then have "hd (trim l) = x" using t(1) d by (cases "trim l") auto
  then show "trim l \<noteq> js ''---''" "trim l \<noteq> js ''...''"
    using x by (auto simp: js_def)
qed

lemma plan_line_not_blank:
  assumes "string_match l TEST_PLAN_REGEX = Some m"
  shows "trim l \<noteq> []" "trim l \<noteq> js ''---''" "trim l \<noteq> js ''...''"
proof -
  from plan_match_first[OF assms] obtain x xs where d: "dropWhile is_space l = x # xs"
    and x: "is_digit x" by blast
  from trim_decomp[of l] obtain ws' where t: "dropWhile is_space l = trim l @ ws'"
    "\<forall>c\<in>set ws'. is_space c" by blast
  have nx: "\<not> is_space x" using x space_not_digit by auto
  show ne: "trim l \<noteq> []"
  proof
    assume "trim l = []"
    with t d have "x \<in> set ws'" by auto
    with t(2) nx show False by blast
  qed
  then have "hd (trim l) = x" using t(1) d by (cases "trim l") auto
  then show "trim l \<noteq> js ''---''" "trim l \<noteq> js ''...''"
    using x by (auto simp: js_def)
qed



lemma parse_loop_rule:
  assumes "I st" "parse_loop lines i st = Inr st'"
    and "\<And>l k st st'. I st \<Longrightarrow> parse_line l k st = Inr st' \<Longrightarrow> I st'"
  shows "I st'"
  using assms(1,2)
proof (induction lines i st rule: parse_loop.induct)
  case (1 lines i st)
  show ?case
  proof (cases "i < length lines")
    case True
    obtain st1 where s: "parse_line (lines ! i) i st = Inr st1"
      using parse_line_total by blast
    have "parse_loop lines (Suc i) st1 = Inr st'"
      using "1.prems"(2) True s by (simp add: parse_loop.simps[of lines i st])
    from "1.IH"[OF True s assms(3)[OF "1.prems"(1) s] this] show ?thesis .
  next
    case False
    with "1.prems" show ?thesis by (simp add: parse_loop.simps[of lines i st])
  qed
qed

lemma outputs_ok_line:
  assumes "outputs_ok st" "parse_line l k st = Inr st'"
  shows "outputs_ok st'"
proof (cases "string_match l TEST_PLAN_REGEX")
  case (Some m)
  with assms show ?thesis by (auto simp: parse_line_def plan_line_def outputs_ok_def)
next
  case None
  show ?thesis
  proof (cases "string_match l TEST_RESULT_REGEX")
    case n: None
    have "outputs_ok (output_line l st)"
    proof (cases "currentTest st")
      case None
      with assms(1) show ?thesis by (simp add: output_line_def)
    next
      case (Some r)
      show ?thesis
      proof (cases "trim l \<noteq> [] \<and> r < length (heap st)")
        case True
        then have "\<forall>l\<in>set (output (heap st ! r)). trim l \<noteq> []"
          using assms(1) by (auto simp: outputs_ok_def)
        with True assms(1) Some show ?thesis
          unfolding outputs_ok_def output_line_def
          by (auto dest!: set_update_subset_insert[THEN subsetD])
      next
        case False
        with assms(1) Some show ?thesis
          by (auto simp: output_line_def list_update_beyond)
      qed
    qed
    with None n assms(2) show ?thesis by (simp add: parse_line_def)
  next
    case (Some m)
    from test_line_result[OF Some, of k st]
    obtain j t g where t: "output t = []"
      and eq: "test_line m l k st =
             Inr ((ensure_group k (reset_group (Num j) k st))
                   \<lparr>heap := heap st @ [t],
                    currentTest := Some (length (heap st)),
                    currentGroup := Some (g\<lparr>tests := tests g @ [length (heap st)]\<rparr>),
                    lastTestNumber := Num j\<rparr>)"
      by blast
    have "parse_line l k st = test_line m l k st" using None Some by (simp add: parse_line_def)
    with eq assms t show ?thesis by (auto simp: outputs_ok_def)
  qed
qed

lemma parse_lines_outputs:
  assumes "parse_lines lines = Inr gs" "g \<in> set gs" "t \<in> set (tests g)" "l \<in> set (output t)"
  shows "trim l \<noteq> []"
proof -
  from assms(1) obtain st where st: "parse_loop lines 0 init_state = Inr st"
    and gs: "gs = map (deref (heap st)) (finish st)"
    by (auto simp: parse_lines_def split: sum.splits)
  have i: "inv st" using inv_parse_loop[OF inv_init st] .
  have "outputs_ok init_state" by (simp add: outputs_ok_def init_state_def)
  then have o: "outputs_ok st"
    using st by (rule parse_loop_rule) (rule outputs_ok_line)
  from assms(2) gs obtain g0 where g0: "g0 \<in> set (finish st)" "g = deref (heap st) g0"
    by auto
  have "group_ok (heap st) g0"
    using i g0(1) by (auto simp: inv_def finish_def split: option.splits)
  then have "\<forall>r\<in>set (tests g0). r < length (heap st)" by (simp add: group_ok_def)
  with assms(3) g0(2) have "t \<in> set (heap st)" by (auto simp: deref_def)
  with o assms(4) show ?thesis by (auto simp: outputs_ok_def)
qed

lemma close_test_cases:
  "close_test i st = foldingRanges st \<or>
   (0 \<le> currentTestLine st \<and>
    close_test i st = foldingRanges st @
       [\<lparr>range_start = currentTestLine st, range_end = int i - 1, kind = None\<rparr>])"
  by (simp add: close_test_def)

lemma fold_starts_line:
  assumes "fold_starts lines st" "k < length lines"
  shows "fold_starts lines (fold_line lines k st)"
proof -
  have ct: "\<forall>r\<in>set (close_test k st). \<exists>s<length lines. range_start r = int s \<and> trim (lines ! s) \<noteq> []"
    using close_test_cases[of k st] assms(1) by (auto simp: fold_starts_def)
  show ?thesis
  proof (cases "string_match (lines ! k) TEST_RESULT_REGEX")
    case (Some m)
    from test_line_not_blank(1)[OF Some] assms(2) ct Some show ?thesis
      by (auto simp: fold_starts_def fold_line_def)
  next
    case None
    show ?thesis
    proof (cases "string_match (lines ! k) TEST_PLAN_REGEX")
      case (Some m)
      with None ct show ?thesis by (auto simp: fold_starts_def fold_line_def)
    next
      case n: None
      show ?thesis
      proof (cases "trim (lines ! k) = js ''---''")
        case True
        then have "trim (lines ! k) \<noteq> []" by (simp add: js_def)
        with yaml_loop_cases[of lines k "Suc k" "foldingRanges st"] assms True None n
        show ?thesis by (auto simp: fold_starts_def fold_line_def)
      next
        case False
        with None n assms(1) show ?thesis by (simp add: fold_line_def fold_starts_def)
      qed
    qed
  qed
qed

lemma fold_lines_starts:
  assumes "r \<in> set (fold_lines lines)"
  shows "\<exists>s<length lines. range_start r = int s \<and> trim (lines ! s) \<noteq> []"
proof -
  let ?st = "fold_loop lines 0 \<lparr>foldingRanges = [], currentTestLine = - 1\<rparr>"
  have "fold_starts lines \<lparr>foldingRanges = [], currentTestLine = - 1\<rparr>"
    by (simp add: fold_starts_def)
  then have "fold_starts lines ?st"
    by (rule fold_loop_rule[where I = "\<lambda>k. fold_starts lines"]) (simp_all add: fold_starts_line)
  with assms show ?thesis
    unfolding fold_lines_def fold_finish_def fold_starts_def
    by (auto split: if_splits)
qed


subsection \<open>Blocks between \<open>---\<close> and \<open>...\<close>\<close>

lemma yaml_loop_append: "yaml_loop lines i j rs = rs @ yaml_loop lines i j []"
proof (induction lines i j rs rule: yaml_loop.induct)
  case (1 lines i j rs)
  show ?case
  proof (cases "j < length lines")
    case True
    show ?thesis
    proof (cases "trim (lines ! j) = js ''...''")
      case t: True
      with True show ?thesis by (simp add: yaml_loop_unfold)
    next
      case False
      with True "1.IH"[OF True False] show ?thesis by (simp add: yaml_loop_unfold)
    qed
  next
    case False
    then show ?thesis by (simp add: yaml_loop_unfold)
  qed
qed

lemma yaml_loop_start:
  "r \<in> set (yaml_loop lines i j []) \<Longrightarrow> range_start r = int i"
  using yaml_loop_cases[of lines i j "[]"] by auto

lemma opener_not_special:
  assumes "trim l = js ''---''"
  shows "string_match l TEST_RESULT_REGEX = None" "string_match l TEST_PLAN_REGEX = None"
    "string_match (trim l) TRIMMED_PLAN_REGEX = None"
proof -
  show "string_match l TEST_RESULT_REGEX = None"
    using test_line_not_blank(2)[of l] assms by (cases "string_match l TEST_RESULT_REGEX") auto
  show "string_match l TEST_PLAN_REGEX = None"
    using plan_line_not_blank(2)[of l] assms by (cases "string_match l TEST_PLAN_REGEX") auto
  have "string_match (js ''---'') TRIMMED_PLAN_REGEX = None" by code_simp
  then show "string_match (trim l) TRIMMED_PLAN_REGEX = None" using assms by simp
qed

lemma opener_inv_line:
  assumes "opener_inv lines i k st" "k < length lines" "trim (lines ! i) = js ''---''"
  shows "opener_inv lines i (Suc k) (fold_line lines k st)"
proof -
  let ?Y = "yaml_loop lines i (Suc i) []"
  have old: "\<forall>r\<in>set (foldingRanges st). range_start r = int i \<longrightarrow> r \<in> set ?Y"
    and cur: "currentTestLine st \<noteq> int i"
    and mem: "i < k \<Longrightarrow> set ?Y \<subseteq> set (foldingRanges st)"
    using assms(1) by (auto simp: opener_inv_def)
  have ct: "\<forall>r\<in>set (close_test k st). range_start r = int i \<longrightarrow> r \<in> set ?Y"
    "set (foldingRanges st) \<subseteq> set (close_test k st)"
    using close_test_cases[of k st] old cur by auto
  show ?thesis
  proof (cases "k = i")
    case True
    have "fold_line lines k st = st\<lparr>foldingRanges := foldingRanges st @ ?Y\<rparr>"
      using True opener_not_special(1,2)[OF assms(3)] assms(3)
      by (simp add: fold_line_def yaml_loop_append[of lines i "Suc i" "foldingRanges st"])
    then show ?thesis using old cur by (auto simp: opener_inv_def)
  next
    case False
    then have ik: "i < Suc k \<Longrightarrow> i < k" by simp
    have mem': "i < Suc k \<Longrightarrow> set ?Y \<subseteq> set (close_test k st)"
      using mem ik ct(2) by blast
    show ?thesis
    proof (cases "string_match (lines ! k) TEST_RESULT_REGEX")
      case (Some m)
      then have "fold_line lines k st = \<lparr>foldingRanges = close_test k st, currentTestLine = int k\<rparr>"
        by (simp add: fold_line_def)
      then show ?thesis using ct(1) mem' False by (simp add: opener_inv_def)
    next
      case None
      show ?thesis
      proof (cases "string_match (lines ! k) TEST_PLAN_REGEX")
        case (Some m)
        then have "fold_line lines k st = \<lparr>foldingRanges = close_test k st, currentTestLine = - 1\<rparr>"
          using None by (simp add: fold_line_def)
        then show ?thesis using ct(1) mem' by (simp add: opener_inv_def)
      next
        case n: None
        show ?thesis
        proof (cases "trim (lines ! k) = js ''---''")
          case True
          have "fold_line lines k st =
                  st\<lparr>foldingRanges := foldingRanges st @ yaml_loop lines k (Suc k) []\<rparr>"
            using True None n
            by (simp add: fold_line_def yaml_loop_append[of lines k "Suc k" "foldingRanges st"])
          moreover have "\<forall>r\<in>set (yaml_loop lines k (Suc k) []). range_start r \<noteq> int i"
            using False by (auto dest: yaml_loop_start)
          ultimately show ?thesis using old cur mem ik by (auto simp: opener_inv_def)
        next
          case f: False
          then have "fold_line lines k st = st" using None n by (simp add: fold_line_def)
          then show ?thesis using old cur mem ik by (auto simp: opener_inv_def)
        qed
      qed
    qed
  qed
qed

lemma fold_lines_opener:
  assumes "i < length lines" "trim (lines ! i) = js ''---''"
  shows "{r \<in> set (fold_lines lines). range_start r = int i} = set (yaml_loop lines i (Suc i) [])"
proof -
  let ?st = "fold_loop lines 0 \<lparr>foldingRanges = [], currentTestLine = - 1\<rparr>"
  let ?Y = "yaml_loop lines i (Suc i) []"
  have "opener_inv lines i 0 \<lparr>foldingRanges = [], currentTestLine = - 1\<rparr>"
    by (simp add: opener_inv_def)
  then have "opener_inv lines i (length lines) ?st"
    by (rule fold_loop_rule) (simp_all add: opener_inv_line assms(2))
  then have old: "\<forall>r\<in>set (foldingRanges ?st). range_start r = int i \<longrightarrow> r \<in> set ?Y"
    and cur: "currentTestLine ?st \<noteq> int i"
    and mem: "set ?Y \<subseteq> set (foldingRanges ?st)"
    using assms(1) by (auto simp: opener_inv_def)
  have "set (foldingRanges ?st) \<subseteq> set (fold_lines lines)"
    by (auto simp: fold_lines_def fold_finish_def)
  moreover have "\<forall>r\<in>set (fold_lines lines). range_start r = int i \<longrightarrow> r \<in> set ?Y"
    using old cur by (auto simp: fold_lines_def fold_finish_def split: if_splits)
  ultimately show ?thesis using mem by (auto dest: yaml_loop_start)
qed

lemma stack_loop_unfold:
  "i < length lines \<Longrightarrow> stack_loop lines i st = stack_loop lines (Suc i) (stack_line lines i st)"
  "\<not> i < length lines \<Longrightarrow> stack_loop lines i st = st"
  by (subst stack_loop.simps, simp)+

lemma stack_loop_rule:
  assumes "I i st" "i \<le> length lines"
    and "\<And>k st. i \<le> k \<Longrightarrow> k < length lines \<Longrightarrow> I k st \<Longrightarrow> I (Suc k) (stack_line lines k st)"
  shows "I (length lines) (stack_loop lines i st)"
  using assms
proof (induction lines i st rule: stack_loop.induct)
  case (1 lines i st)
  show ?case
  proof (cases "i < length lines")
    case True
    have "I (length lines) (stack_loop lines (Suc i) (stack_line lines i st))"
    proof (rule "1.IH"[OF True])
      show "I (Suc i) (stack_line lines i st)" using "1.prems"(1,3) True by simp
      show "Suc i \<le> length lines" using True by simp
      show "\<And>k st. Suc i \<le> k \<Longrightarrow> k < length lines \<Longrightarrow> I k st \<Longrightarrow> I (Suc k) (stack_line lines k st)"
        using "1.prems"(3) by simp
    qed
    then show ?thesis using True by (simp add: stack_loop_unfold)
  next
    case False
    with "1.prems"(1,2) show ?thesis by (simp add: stack_loop_unfold)
  qed
qed

lemma pop_loop_props:
  "set (stack (pop_loop d k st)) \<subseteq> set (stack st) \<and>
   (\<exists>rs. ranges (pop_loop d k st) = ranges st @ rs \<and>
      (\<forall>r\<in>set rs. \<exists>e\<in>set (stack st). range_start r = startLine e))"
proof (induction d k st rule: pop_loop.induct)
  case (1 d k st)
  show ?case
  proof (cases "length (stack st) > 0 \<and> entry_indent (last (stack st)) \<ge> d")
    case True
    let ?st1 = "\<lparr>ranges = (if startLine (last (stack st)) < int k - 1
                         then ranges st @ [\<lparr>range_start = startLine (last (stack st)),
                                            range_end = int k - 1, kind = None\<rparr>]
                         else ranges st),
              stack = butlast (stack st)\<rparr>"
    have eq: "pop_loop d k st = pop_loop d k ?st1"
      using True by (subst pop_loop.simps) simp
    from "1.IH"[OF True] obtain rs where
      s: "set (stack (pop_loop d k ?st1)) \<subseteq> set (stack ?st1)"
      and r: "ranges (pop_loop d k ?st1) = ranges ?st1 @ rs"
      "\<forall>r\<in>set rs. \<exists>e\<in>set (stack ?st1). range_start r = startLine e"
      by blast
    have ne: "stack st \<noteq> []" using True by auto
    have sub: "set (butlast (stack st)) \<subseteq> set (stack st)" by (auto dest: in_set_butlastD)
    have l: "last (stack st) \<in> set (stack st)" using ne by simp
    obtain rs0 where rs0: "ranges ?st1 = ranges st @ rs0"
      "\<forall>r\<in>set rs0. \<exists>e\<in>set (stack st). range_start r = startLine e"
      using l by (cases "startLine (last (stack st)) < int k - 1") auto
    have "ranges (pop_loop d k st) = ranges st @ (rs0 @ rs)"
      using eq r(1) rs0(1) by simp
    moreover have "\<forall>r\<in>set rs. \<exists>e\<in>set (stack st). range_start r = startLine e"
    proof
      fix r assume "r \<in> set rs"
      with r(2) obtain e where "e \<in> set (butlast (stack st))" "range_start r = startLine e"
        by auto
      then show "\<exists>e\<in>set (stack st). range_start r = startLine e" using sub by blast
    qed
    then have "\<forall>r\<in>set (rs0 @ rs). \<exists>e\<in>set (stack st). range_start r = startLine e"
      using rs0(2) by auto
    moreover have "set (stack (pop_loop d k st)) \<subseteq> set (stack st)"
      using eq s sub by auto
    ultimately show ?thesis by blast
  next
    case False
    then have "pop_loop d k st = st" by (subst pop_loop.simps) auto
    then show ?thesis by simp
  qed
qed

lemma close_remaining_props:
  "\<exists>rs. ranges (close_remaining lines st) = ranges st @ rs \<and>
      (\<forall>r\<in>set rs. \<exists>e\<in>set (stack st). range_start r = startLine e)"
proof (induction lines st rule: close_remaining.induct)
  case (1 lines st)
  show ?case
  proof (cases "length (stack st) > 0")
    case True
    let ?st1 = "\<lparr>ranges = (if startLine (last (stack st)) < int (length lines) - 1
                         then ranges st @ [\<lparr>range_start = startLine (last (stack st)),
                                            range_end = int (length lines) - 1, kind = None\<rparr>]
                         else ranges st),
              stack = butlast (stack st)\<rparr>"
    have eq: "close_remaining lines st = close_remaining lines ?st1"
      using True by (subst close_remaining.simps) simp
    from "1.IH"[OF True] obtain rs where
      r: "ranges (close_remaining lines ?st1) = ranges ?st1 @ rs"
      "\<forall>r\<in>set rs. \<exists>e\<in>set (stack ?st1). range_start r = startLine e"
      by blast
    have ne: "stack st \<noteq> []" using True by auto
    have sub: "set (butlast (stack st)) \<subseteq> set (stack st)" by (auto dest: in_set_butlastD)
    have l: "last (stack st) \<in> set (stack st)" using ne by simp
    obtain rs0 where rs0: "ranges ?st1 = ranges st @ rs0"
      "\<forall>r\<in>set rs0. \<exists>e\<in>set (stack st). range_start r = startLine e"
      using l by (cases "startLine (last (stack st)) < int (length lines) - 1") auto
    have "ranges (close_remaining lines st) = ranges st @ (rs0 @ rs)"
      using eq r(1) rs0(1) by simp
    moreover have "\<forall>r\<in>set rs. \<exists>e\<in>set (stack st). range_start r = startLine e"
    proof
      fix r assume "r \<in> set rs"
      with r(2) obtain e where "e \<in> set (butlast (stack st))" "range_start r = startLine e"
        by auto
      then show "\<exists>e\<in>set (stack st). range_start r = startLine e" using sub by blast
    qed
    then have "\<forall>r\<in>set (rs0 @ rs). \<exists>e\<in>set (stack st). range_start r = startLine e"
      using rs0(2) by auto
    ultimately show ?thesis by blast
  next
    case False
    then have "close_remaining lines st = st" by (subst close_remaining.simps) auto
    then show ?thesis by simp
  qed
qed

lemma stack_opener_inv_line:
  assumes "stack_opener_inv lines i k st" "k < length lines" "trim (lines ! i) = js ''---''"
  shows "stack_opener_inv lines i (Suc k) (stack_line lines k st)"
proof -
  let ?Y = "yaml_loop lines i (Suc i) []"
  have old: "\<forall>r\<in>set (ranges st). range_start r = int i \<longrightarrow> r \<in> set ?Y"
    and stk: "\<forall>e\<in>set (stack st). startLine e \<noteq> int i"
    and mem: "i < k \<Longrightarrow> set ?Y \<subseteq> set (ranges st)"
    using assms(1) by (auto simp: stack_opener_inv_def)
  show ?thesis
  proof (cases "string_match (trim (lines ! k)) TRIMMED_PLAN_REGEX")
    case (Some m)
    then have ki: "k \<noteq> i" using opener_not_special(3)[OF assms(3)] by auto
    let ?d = "length (lines ! k) - length (trimStart (lines ! k))"
    let ?p = "pop_loop ?d k st"
    have eq: "stack_line lines k st = ?p\<lparr>stack := stack ?p @ [\<lparr>startLine = int k, entry_indent = ?d\<rparr>]\<rparr>"
      using Some by (simp add: stack_line_def Let_def)
    from pop_loop_props[of ?d k st] obtain rs where
      s: "set (stack ?p) \<subseteq> set (stack st)"
      and r: "ranges ?p = ranges st @ rs"
      "\<forall>r\<in>set rs. \<exists>e\<in>set (stack st). range_start r = startLine e"
      by blast
    have "\<forall>r\<in>set rs. range_start r \<noteq> int i" using r(2) stk by force
    then have 1: "\<forall>r\<in>set (ranges ?p). range_start r = int i \<longrightarrow> r \<in> set ?Y"
      using old r(1) by auto
    have 2: "\<forall>e\<in>set (stack ?p @ [\<lparr>startLine = int k, entry_indent = ?d\<rparr>]). startLine e \<noteq> int i"
      using s stk ki by auto
    have 3: "i < Suc k \<Longrightarrow> set ?Y \<subseteq> set (ranges ?p)"
      using mem ki r(1) by auto
    show ?thesis unfolding eq stack_opener_inv_def using 1 2 3 by simp
  next
    case None
    show ?thesis
    proof (cases "trim (lines ! k) = js ''---''")
      case True
      have eq: "stack_line lines k st = st\<lparr>ranges := ranges st @ yaml_loop lines k (Suc k) []\<rparr>"
        using True None
        by (simp add: stack_line_def Let_def yaml_loop_append[of lines k "Suc k" "ranges st"])
      show ?thesis
      proof (cases "k = i")
        case k: True
        show ?thesis unfolding eq stack_opener_inv_def using old stk k by auto
      next
        case False
        then have "\<forall>r\<in>set (yaml_loop lines k (Suc k) []). range_start r \<noteq> int i"
          by (auto dest: yaml_loop_start)
        moreover have "i < Suc k \<Longrightarrow> i < k" using False by simp
        ultimately show ?thesis unfolding eq stack_opener_inv_def using old stk mem by auto
      qed
    next
      case False
      then have ki: "k \<noteq> i" using assms(3) by auto
      have "stack_line lines k st = st" using False None by (simp add: stack_line_def Let_def)
      moreover have "i < Suc k \<Longrightarrow> i < k" using ki by simp
      ultimately show ?thesis using old stk mem by (auto simp: stack_opener_inv_def)
    qed
  qed
qed

lemma stack_lines_opener:
  assumes "i < length lines" "trim (lines ! i) = js ''---''"
  shows "{r \<in> set (stack_lines lines). range_start r = int i} = set (yaml_loop lines i (Suc i) [])"
proof -
  let ?st = "stack_loop lines 0 \<lparr>ranges = [], stack = []\<rparr>"
  let ?Y = "yaml_loop lines i (Suc i) []"
  have "stack_opener_inv lines i 0 \<lparr>ranges = [], stack = []\<rparr>"
    by (simp add: stack_opener_inv_def)
  then have "stack_opener_inv lines i (length lines) ?st"
    by (rule stack_loop_rule) (simp_all add: stack_opener_inv_line assms(2))
  then have old: "\<forall>r\<in>set (ranges ?st). range_start r = int i \<longrightarrow> r \<in> set ?Y"
    and stk: "\<forall>e\<in>set (stack ?st). startLine e \<noteq> int i"
    and mem: "set ?Y \<subseteq> set (ranges ?st)"
    using assms(1) by (auto simp: stack_opener_inv_def)
  from close_remaining_props[of lines ?st] obtain rs where
    r: "ranges (close_remaining lines ?st) = ranges ?st @ rs"
    "\<forall>r\<in>set rs. \<exists>e\<in>set (stack ?st). range_start r = startLine e"
    by blast
  have "\<forall>r\<in>set rs. range_start r \<noteq> int i" using r(2) stk by force
  then have "\<forall>r\<in>set (stack_lines lines). range_start r = int i \<longrightarrow> r \<in> set ?Y"
    using old r(1) by (auto simp: stack_lines_def)
  moreover have "set ?Y \<subseteq> set (stack_lines lines)"
    using mem r(1) by (auto simp: stack_lines_def)
  ultimately show ?thesis by (auto dest: yaml_loop_start)
qed

lemma fold_loop_cong:
  assumes "length lines' = length lines"
    and "\<And>k st. k < length lines \<Longrightarrow> fold_line lines' k st = fold_line lines k st"
  shows "fold_loop lines' i st = fold_loop lines i st"
proof (induction "length lines - i" arbitrary: i st)
  case 0
  then show ?case using assms(1) by (simp add: fold_loop_unfold)
next
  case (Suc n)
  then have i: "i < length lines" "n = length lines - Suc i" by simp_all
  show ?case
    using Suc.hyps(1)[OF i(2), of "fold_line lines i st"] i(1) assms
    by (simp add: fold_loop_unfold)
qed

lemma stack_loop_cong:
  assumes "length lines' = length lines"
    and "\<And>k st. k < length lines \<Longrightarrow> stack_line lines' k st = stack_line lines k st"
  shows "stack_loop lines' i st = stack_loop lines i st"
proof (induction "length lines - i" arbitrary: i st)
  case 0
  then show ?case using assms(1) by (simp add: stack_loop_unfold)
next
  case (Suc n)
  then have i: "i < length lines" "n = length lines - Suc i" by simp_all
  show ?case
    using Suc.hyps(1)[OF i(2), of "stack_line lines i st"] i(1) assms
    by (simp add: stack_loop_unfold)
qed

lemma close_remaining_length:
  "length lines' = length lines \<Longrightarrow> close_remaining lines' st = close_remaining lines st"
proof (induction lines st rule: close_remaining.induct)
  case (1 lines st)
  show ?case
  proof (cases "length (stack st) > 0")
    case True
    show ?thesis
      using "1.IH"[OF True "1.prems"] True "1.prems"
      by (simp add: close_remaining.simps[of lines st] close_remaining.simps[of lines' st]
               split del: if_split cong: if_cong)
  next
    case False
    then show ?thesis
      by (simp add: close_remaining.simps[of lines st] close_remaining.simps[of lines' st])
  qed
qed

lemma yaml_loop_update:
  assumes "trim (lines ! i) \<noteq> js ''...''" "trim l' \<noteq> js ''...''"
  shows "yaml_loop (lines[i := l']) k j rs = yaml_loop lines k j rs"
proof (rule yaml_loop_cong)
  show "length (lines[i := l']) = length lines" by simp
  show "\<forall>k<length (lines[i := l']).
          (trim (lines[i := l'] ! k) = js ''...'') = (trim (lines ! k) = js ''...'')"
  proof (intro allI impI)
    fix k assume k: "k < length (lines[i := l'])"
    show "(trim (lines[i := l'] ! k) = js ''...'') = (trim (lines ! k) = js ''...'')"
    proof (cases "k = i")
      case True
      then show ?thesis using k assms by simp
    next
      case False
      then show ?thesis by simp
    qed
  qed
qed

lemma unterminated_update:
  assumes "i < length lines" "trim (lines ! i) = js ''---''"
    and "\<forall>j. i < j \<and> j < length lines \<longrightarrow> trim (lines ! j) \<noteq> js ''...''"
    and "plain_line l'"
  shows "fold_line (lines[i := l']) k st = fold_line lines k st"
    "stack_line (lines[i := l']) k st' = stack_line lines k st'"
proof -
  have n: "trim (lines ! i) \<noteq> js ''...''" using assms(2) by (simp add: js_def)
  have n': "trim l' \<noteq> js ''...''" using assms(4) by (simp add: plain_line_def)
  note y = yaml_loop_update[OF n n']
  have none: "yaml_loop lines i (Suc i) rs = rs" for rs
    by (rule yaml_loop_none) (use assms(3) in auto)
  show "fold_line (lines[i := l']) k st = fold_line lines k st"
  proof (cases "k = i")
    case True
    have "fold_line lines i st = st"
      using opener_not_special(1,2)[OF assms(2)] assms(2) none
      by (simp add: fold_line_def)
    moreover have "fold_line (lines[i := l']) i st = st"
      using assms(1,4) by (simp add: fold_line_def plain_line_def)
    ultimately show ?thesis using True by simp
  next
    case False
    then have e: "lines[i := l'] ! k = lines ! k" by simp
    show ?thesis unfolding fold_line_def e y ..
  qed
  show "stack_line (lines[i := l']) k st' = stack_line lines k st'"
  proof (cases "k = i")
    case True
    have "stack_line lines i st' = st'"
      using opener_not_special(3)[OF assms(2)] assms(2) none
      by (simp add: stack_line_def)
    moreover have "stack_line (lines[i := l']) i st' = st'"
      using assms(1,4) by (simp add: stack_line_def plain_line_def)
    ultimately show ?thesis using True by simp
  next
    case False
    then have e: "lines[i := l'] ! k = lines ! k" by simp
    show ?thesis unfolding stack_line_def e y ..
  qed
qed

lemma unterminated_unaffected:
  assumes "i < length lines" "trim (lines ! i) = js ''---''"
    and "\<forall>j. i < j \<and> j < length lines \<longrightarrow> trim (lines ! j) \<noteq> js ''...''"
    and "plain_line l'"
  shows "fold_lines (lines[i := l']) = fold_lines lines"
    "stack_lines (lines[i := l']) = stack_lines lines"
proof -
  have "fold_loop (lines[i := l']) 0 st = fold_loop lines 0 st" for st
    by (rule fold_loop_cong) (simp_all add: unterminated_update(1)[OF assms])
  then show "fold_lines (lines[i := l']) = fold_lines lines"
    by (simp add: fold_lines_def fold_finish_def)
  have "stack_loop (lines[i := l']) 0 st = stack_loop lines 0 st" for st
    by (rule stack_loop_cong) (simp_all add: unterminated_update(2)[OF assms])
  then show "stack_lines (lines[i := l']) = stack_lines lines"
    by (simp add: stack_lines_def close_remaining_length[of "lines[i := l']" lines])
qed

lemma opener_parse_line:
  "trim l = js ''---'' \<Longrightarrow> parse_line l k st = Inr (output_line l st)"
  using opener_not_special(1,2)[of l] by (simp add: parse_line_def)

section \<open>Facts about the duration of a test\<close>

subsection \<open>Where a match of the duration pattern can begin\<close>

lemma duration_match_start:
  assumes "rmatch True n (pattern DURATION_REGEX) Some (s, c) = Some st'"
  shows "\<exists>j. 0 < j \<and> j < length s \<and> (\<forall>x\<in>set (take j s). is_space x) \<and>
             canonicalize (s ! j) = 0x49"
proof -
  let ?R = "Seq (Plus Space) (Seq (Cap 1 (seq [Plus Digit, Opt (seq [Lit (js ''.''), Plus Digit])]))
         (Seq (Cap 2 (Alt (Lit (js ''ms'')) (Lit (js ''s'')))) duration_pattern_tail))"
  let ?K = "\<lambda>s'. rmatch True n (Seq (Lit (js ''in'')) ?R) Some (s', c)"
  from assms obtain x xs where s: "s = x # xs" and x: "is_space x"
    and st: "star is_space ?K xs = Some st'"
    unfolding duration_pattern by (cases s) (auto split: if_splits)
  from star_some[OF st] obtain j where j: "j \<le> length (takeWhile is_space xs)"
    and k: "?K (drop j xs) = Some st'" by blast
  have "lit True (js ''in'') (drop j xs) \<noteq> None"
    using k by (auto split: option.splits)
  then have l: "length (js ''in'') \<le> length (drop j xs)"
    "map canonicalize (take (length (js ''in'')) (drop j xs)) = map canonicalize (js ''in'')"
    unfolding lit_ci by (auto split: if_splits)
  have jl: "j < length xs" using l(1) by (simp add: js_def)
  have "canonicalize (drop j xs ! 0) = 0x49"
    using l by (cases "drop j xs") (auto simp: js_def)
  then have c: "canonicalize (xs ! j) = 0x49" using jl by simp
  have "take j xs = take j (takeWhile is_space xs)"
    using j by (metis append_eq_conv_conj takeWhile_dropWhile_id take_append min.absorb2 length_take take_all_iff
          append_take_drop_id take_take min.commute)
  then have "\<forall>x\<in>set (take j xs). is_space x"
    by (metis in_set_takeD set_takeWhileD)
  then show ?thesis
    using s x c jl by (intro exI[of _ "Suc j"]) simp
qed

lemma no_duration:
  assumes "\<forall>x\<in>set (tl d). canonicalize x \<noteq> 0x49"
  shows "string_match d DURATION_REGEX = None"
proof -
  have "rmatch (ignoreCase DURATION_REGEX) (length d) (pattern DURATION_REGEX) Some (drop j d, \<lambda>g. None) = None"
    if "j \<le> length d" for j
  proof (rule ccontr)
    assume "rmatch (ignoreCase DURATION_REGEX) (length d) (pattern DURATION_REGEX) Some (drop j d, \<lambda>g. None) \<noteq> None"
    then obtain st' where
      "rmatch True (length d) (pattern DURATION_REGEX) Some (drop j d, \<lambda>g. None) = Some st'"
      by (auto simp: DURATION_REGEX_def)
    from duration_match_start[OF this] obtain q where q: "0 < q" "q < length (drop j d)"
      "canonicalize (drop j d ! q) = 0x49" by blast
    then have "j + q < length d" "canonicalize (d ! (j + q)) = 0x49" by auto
    moreover have "d ! (j + q) \<in> set (tl d)"
      using q(1) \<open>j + q < length d\<close> by (cases d) (auto simp: nth_Cons split: nat.splits)
    ultimately show False using assms by auto
  qed
  then show ?thesis
    unfolding string_match_def regexp_exec_def by (intro search_none) simp
qed

lemma canon_in:
  assumes "map canonicalize w = map canonicalize (js ''in'')"
  shows "\<exists>a b. w = [a, b] \<and> canonicalize a = 0x49 \<and> canonicalize b = 0x4E"
proof -
  have "length (map canonicalize w) = length (map canonicalize (js ''in''))"
    by (simp only: assms)
  then have "length w = 2" by (simp add: js_def)
  then obtain a b where "w = [a, b]"
    by (cases w; cases "tl w") auto
  with assms show ?thesis by (simp add: js_def)
qed

lemma canon_unit:
  assumes "map canonicalize u = map canonicalize (js ''ms'') \<or>
           map canonicalize u = map canonicalize (js ''s'')"
  shows "(\<exists>a b. u = [a, b] \<and> canonicalize a = 0x4D \<and> canonicalize b = 0x53) \<or>
         (\<exists>b. u = [b] \<and> canonicalize b = 0x53)"
  using assms
proof
  assume a: "map canonicalize u = map canonicalize (js ''ms'')"
  have "length (map canonicalize u) = length (map canonicalize (js ''ms''))"
    by (simp only: a)
  then have "length u = 2" by (simp add: js_def)
  then obtain x y where "u = [x, y]" by (cases u; cases "tl u") auto
  with a show ?thesis by (simp add: js_def)
next
  assume a: "map canonicalize u = map canonicalize (js ''s'')"
  have "length (map canonicalize u) = length (map canonicalize (js ''s''))"
    by (simp only: a)
  then have "length u = 1" by (simp add: js_def)
  then obtain y where "u = [y]" by (cases u) auto
  with a show ?thesis by (simp add: js_def)
qed

lemma class_not_I:
  "is_space x \<Longrightarrow> canonicalize x \<noteq> 0x49"
  "is_digit x \<Longrightarrow> canonicalize x \<noteq> 0x49"
proof -
  show "is_space x \<Longrightarrow> canonicalize x \<noteq> 0x49"
    using is_space_numeral[of "Num.Bit1 (Num.Bit0 (Num.Bit0 (Num.Bit1 (Num.Bit0 (Num.Bit0 Num.One)))))"]
    by auto
  show "is_digit x \<Longrightarrow> canonicalize x \<noteq> 0x49"
    by (auto simp: is_digit_def)
qed

lemma clause_rest_not_I:
  assumes "\<forall>x\<in>set ws. is_space x" "\<forall>x\<in>set ip. is_digit x"
    and "fr = [] \<or> (\<exists>fp. fr = 0x2E # fp \<and> fp \<noteq> [] \<and> (\<forall>x\<in>set fp. is_digit x))"
    and "map canonicalize u = map canonicalize (js ''ms'') \<or>
         map canonicalize u = map canonicalize (js ''s'')"
  shows "\<forall>x\<in>set (ws @ ip @ fr @ u). canonicalize x \<noteq> 0x49"
proof -
  have 1: "\<forall>x\<in>set ws. canonicalize x \<noteq> 0x49" using assms(1) class_not_I(1) by blast
  have 2: "\<forall>x\<in>set ip. canonicalize x \<noteq> 0x49" using assms(2) class_not_I(2) by blast
  have 3: "\<forall>x\<in>set fr. canonicalize x \<noteq> 0x49"
    using assms(3) class_not_I(2) by auto
  have 4: "\<forall>x\<in>set u. canonicalize x \<noteq> 0x49"
    using canon_unit[OF assms(4)] by auto
  from 1 2 3 4 show ?thesis by auto
qed

lemma bare_clause:
  assumes "map canonicalize w = map canonicalize (js ''in'')"
    and "\<forall>x\<in>set ws. is_space x" "\<forall>x\<in>set ip. is_digit x"
    and "fr = [] \<or> (\<exists>fp. fr = 0x2E # fp \<and> fp \<noteq> [] \<and> (\<forall>x\<in>set fp. is_digit x))"
    and "map canonicalize u = map canonicalize (js ''ms'') \<or>
         map canonicalize u = map canonicalize (js ''s'')"
  shows "extract_duration (w @ ws @ ip @ fr @ u) = Inr (None, w @ ws @ ip @ fr @ u)"
proof -
  from canon_in[OF assms(1)] obtain a b where w: "w = [a, b]" "canonicalize b = 0x4E" by blast
  have "\<forall>x\<in>set (tl (w @ ws @ ip @ fr @ u)). canonicalize x \<noteq> 0x49"
    using clause_rest_not_I[OF assms(2-5)] w by auto
  from no_duration[OF this] show ?thesis by (simp add: extract_duration_def)
qed

section \<open>A plan with two results\<close>

text \<open>
  Claim C1.  The text of a plan \<open>1..2\<close>, a passing test \<open>a\<close> and a failing test \<open>b\<close> marked
  \<open># TODO later\<close> parses to exactly one group, named "Tests 1..2" from the plan line, that holds
  exactly two tests in order: number 1, passed, described "a"; number 2, failed, with
  \<open>hasTodo\<close>, described "b" (the comment is stripped).  The test run reports the first as
  passed and the second as skipped.
\<close>

theorem C1_plan_with_two_results:
  "parseTapContent (js ''1..2\<newline>ok 1 - a\<newline>not ok 2 - b # TODO later\<newline>'') =
     Inr [\<lparr>name = js ''Tests 1..2'', group_line = 0,
           tests = [\<lparr>line = 1, indent = 0, passed = True, testNumber = Num 1,
                     description = js ''a'', duration = None, hasTodo = False, hasSkip = False,
                     fullLine = js ''ok 1 - a'', output = []\<rparr>,
                    \<lparr>line = 2, indent = 0, passed = False, testNumber = Num 2,
                     description = js ''b'', duration = None, hasTodo = True, hasSkip = False,
                     fullLine = js ''not ok 2 - b # TODO later'', output = []\<rparr>]\<rparr>]
   \<and> report \<lparr>line = 1, indent = 0, passed = True, testNumber = Num 1,
               description = js ''a'', duration = None, hasTodo = False, hasSkip = False,
               fullLine = js ''ok 1 - a'', output = []\<rparr> = RunPassed None
   \<and> report \<lparr>line = 2, indent = 0, passed = False, testNumber = Num 2,
               description = js ''b'', duration = None, hasTodo = True, hasSkip = False,
               fullLine = js ''not ok 2 - b # TODO later'', output = []\<rparr> = RunSkipped"
  by code_simp

section \<open>No input makes the parser or the folding providers fail\<close>

text \<open>
  Claim C8.  For every text \<open>parseTapContent\<close> returns a list of groups: none of its property
  reads can throw, because group 1 of the test-result pattern and group 2 of the duration
  pattern take part in every match and a current group exists when a test is pushed.  The
  folding providers have no operation that can throw (every index is below \<open>lines.length\<close>),
  so their models have no error value, and all loops of the models are terminating
  functions.  For the empty string all three return the empty list.  A line that is neither
  a plan nor a test result leaves the groups, the current group and the number of test
  objects as they are.
\<close>

theorem C8_no_failure:
  "(\<exists>gs. parseTapContent text = Inr gs)
   \<and> parseTapContent [] = Inr []
   \<and> provideFoldingRanges [] = []
   \<and> provideFoldingRanges_stack [] = []
   \<and> (string_match l TEST_PLAN_REGEX = None \<and> string_match l TEST_RESULT_REGEX = None \<longrightarrow>
        (\<exists>st'. parse_line l i st = Inr st' \<and> groups st' = groups st \<and>
               currentGroup st' = currentGroup st \<and> length (heap st') = length (heap st)))"
proof -
  obtain st where st: "parse_loop (split_lines text) 0 init_state = Inr st"
    using parse_loop_total by blast
  have 1: "\<exists>gs. parseTapContent text = Inr gs"
    by (simp add: parseTapContent_def parse_lines_def st)
  have 2: "\<exists>st'. parse_line l i st = Inr st' \<and> groups st' = groups st \<and>
               currentGroup st' = currentGroup st \<and> length (heap st') = length (heap st)"
    if "string_match l TEST_PLAN_REGEX = None" "string_match l TEST_RESULT_REGEX = None" for st
    using that by (simp add: parse_line_def)
  show ?thesis using 1 2 empty_text by blast
qed

theorem C8_no_failure_witness:
  "(\<exists>gs. parseTapContent (js ''# hello'') = Inr gs)
   \<and> string_match (js ''# hello'') TEST_PLAN_REGEX = None
   \<and> string_match (js ''# hello'') TEST_RESULT_REGEX = None
   \<and> (\<exists>st'. parse_line (js ''# hello'') 0 init_state = Inr st' \<and> groups st' = [] \<and>
               currentGroup st' = None \<and> length (heap st') = 0)"
proof -
  have h: "string_match (js ''# hello'') TEST_PLAN_REGEX = None"
    "string_match (js ''# hello'') TEST_RESULT_REGEX = None"
    by code_simp+
  have i: "groups init_state = []" "currentGroup init_state = None" "heap init_state = []"
    by (simp_all add: init_state_def)
  show ?thesis
    using C8_no_failure[of "js ''# hello''" "js ''# hello''" 0 init_state] h i by simp
qed

section \<open>Test numbers of a group, and the reset of the numbering\<close>



section \<open>A plan line starts a new group\<close>

text \<open>
  Claim C3.  A line of white space, digits, two dots and digits is a plan line, and at such a
  line the loop body appends the current group, if there is one, to \<open>groups\<close> whatever its
  tests are, makes the current group a new empty group named "Tests N..M" from the two
  numbers of the line, sets \<open>lastTestNumber\<close> to 0 and \<open>currentTest\<close> to null.  Every test object
  that exists when the loop reaches a plan line is in the final store exactly as it was then:
  no later output line is attached to it.  This holds for every plan line, in particular
  for one that starts at 1.
\<close>

theorem C3_plan_line:
  "(\<forall>c\<in>set ws. is_space c) \<and> a \<noteq> [] \<and> (\<forall>c\<in>set a. is_digit c) \<and>
   b \<noteq> [] \<and> (\<forall>c\<in>set b. is_digit c) \<longrightarrow>
   parse_line (ws @ a @ js ''..'' @ b) i st =
     Inr (st\<lparr>groups := (case currentGroup st of None \<Rightarrow> groups st | Some g \<Rightarrow> groups st @ [g]),
             currentGroup := Some \<lparr>name = js ''Tests '' @ a @ js ''..'' @ b, group_line = i, tests = []\<rparr>,
             currentTest := None,
             lastTestNumber := Num 0\<rparr>)
   \<and> (i < length lines \<and> lines ! i = ws @ a @ js ''..'' @ b \<and>
      state_before lines i = Inr st \<and> parse_loop lines 0 init_state = Inr final \<longrightarrow>
      length (heap st) \<le> length (heap final) \<and>
      (\<forall>r < length (heap st). heap final ! r = heap st ! r))"
proof (intro impI)
  assume sh: "(\<forall>c\<in>set ws. is_space c) \<and> a \<noteq> [] \<and> (\<forall>c\<in>set a. is_digit c) \<and>
   b \<noteq> [] \<and> (\<forall>c\<in>set b. is_digit c)"
  let ?l = "ws @ a @ js ''..'' @ b"
  let ?m = "\<lparr>index = 0, matched = ?l, caps = (\<lambda>g. None)(1 \<mapsto> ws, 2 \<mapsto> a, 3 \<mapsto> b)\<rparr>"
  have m: "string_match ?l TEST_PLAN_REGEX = Some ?m"
    using sh by (intro plan_match_shape) auto
  have step: "parse_line ?l i st = Inr (plan_line ?m i st)" for st
    by (simp add: parse_line_def m)
  have 1: "parse_line ?l i st =
     Inr (st\<lparr>groups := (case currentGroup st of None \<Rightarrow> groups st | Some g \<Rightarrow> groups st @ [g]),
             currentGroup := Some \<lparr>name = js ''Tests '' @ a @ js ''..'' @ b, group_line = i, tests = []\<rparr>,
             currentTest := None,
             lastTestNumber := Num 0\<rparr>)"
    unfolding step by (simp add: plan_line_def)
  have 2: "length (heap st) \<le> length (heap final) \<and>
      (\<forall>r < length (heap st). heap final ! r = heap st ! r)"
    if a: "i < length lines \<and> lines ! i = ?l \<and>
      state_before lines i = Inr st \<and> parse_loop lines 0 init_state = Inr final"
  proof -
    have sb: "state_before lines (Suc i) = Inr (plan_line ?m i st)"
      using a by (simp add: state_before_Suc step)
    have "parse_loop lines (Suc i) (plan_line ?m i st) = Inr final"
      using state_before_rest[OF _ sb] a by simp
    moreover have "frozen (length (heap st)) (heap st) (plan_line ?m i st)"
      by (simp add: frozen_def plan_line_def)
    ultimately have f: "frozen (length (heap st)) (heap st) final"
      by (rule frozen_parse_loop[rotated])
    then have t: "take (length (heap st)) (heap final) = heap st"
      and "length (heap st) \<le> length (heap final)"
      by (simp_all add: frozen_def)
    moreover have "heap final ! r = heap st ! r" if "r < length (heap st)" for r
      using nth_take[OF that, of "heap final"] t by simp
    ultimately show ?thesis by blast
  qed
  from 1 2 show "parse_line ?l i st =
     Inr (st\<lparr>groups := (case currentGroup st of None \<Rightarrow> groups st | Some g \<Rightarrow> groups st @ [g]),
             currentGroup := Some \<lparr>name = js ''Tests '' @ a @ js ''..'' @ b, group_line = i, tests = []\<rparr>,
             currentTest := None,
             lastTestNumber := Num 0\<rparr>)
   \<and> (i < length lines \<and> lines ! i = ?l \<and>
      state_before lines i = Inr st \<and> parse_loop lines 0 init_state = Inr final \<longrightarrow>
      length (heap st) \<le> length (heap final) \<and>
      (\<forall>r < length (heap st). heap final ! r = heap st ! r))"
    by blast
qed

theorem C3_plan_line_witness:
  "\<exists>st final.
     state_before (split_lines (js ''ok 1\<newline> out\<newline>1..2\<newline>more\<newline>ok 1'')) 2 = Inr st \<and>
     parse_loop (split_lines (js ''ok 1\<newline> out\<newline>1..2\<newline>more\<newline>ok 1'')) 0 init_state = Inr final \<and>
     parse_line (js ''1..2'') 2 st =
       Inr (st\<lparr>groups := groups st @ [the (currentGroup st)],
               currentGroup := Some \<lparr>name = js ''Tests 1..2'', group_line = 2, tests = []\<rparr>,
               currentTest := None,
               lastTestNumber := Num 0\<rparr>) \<and>
     length (heap st) = 1 \<and> heap final ! 0 = heap st ! 0 \<and>
     output (heap final ! 0) = [js '' out'']"
proof -
  let ?L = "split_lines (js ''ok 1\<newline> out\<newline>1..2\<newline>more\<newline>ok 1'')"
  obtain st where st: "state_before ?L 2 = Inr st"
    using parse_loop_total[of "take 2 ?L" 0 init_state] by (auto simp: state_before_def)
  obtain final where final: "parse_loop ?L 0 init_state = Inr final"
    using parse_loop_total by blast
  have "map_sum id (\<lambda>st. (currentGroup st \<noteq> None, map output (heap st))) (state_before ?L 2)
          = Inr (True, [[js '' out'']])"
    by code_simp
  then have s: "currentGroup st \<noteq> None" "map output (heap st) = [[js '' out'']]"
    using st by auto
  then have h: "length (heap st) = 1" "output (heap st ! 0) = [js '' out'']"
    by (auto simp: map_eq_Cons_conv)
  have ll: "2 < length ?L" "?L ! 2 = js ''1..2''" by code_simp+
  have sh: "(\<forall>c\<in>set []. is_space c) \<and> js ''1'' \<noteq> [] \<and> (\<forall>c\<in>set (js ''1''). is_digit c) \<and>
     js ''2'' \<noteq> [] \<and> (\<forall>c\<in>set (js ''2''). is_digit c)"
    by (simp add: js_def)
  have l: "[] @ js ''1'' @ js ''..'' @ js ''2'' = js ''1..2''" by (simp add: js_def)
  note c3 = C3_plan_line[of "[]" "js ''1''" "js ''2''" 2 st ?L final, rule_format, OF sh, unfolded l]
  from c3[THEN conjunct2, rule_format] ll st final h(1)
  have 2: "heap final ! 0 = heap st ! 0" by simp
  from c3[THEN conjunct1] s(1)
  have 1: "parse_line (js ''1..2'') 2 st =
       Inr (st\<lparr>groups := groups st @ [the (currentGroup st)],
               currentGroup := Some \<lparr>name = js ''Tests 1..2'', group_line = 2, tests = []\<rparr>,
               currentTest := None,
               lastTestNumber := Num 0\<rparr>)"
    by (auto simp: js_def)
  from st final 1 2 h show ?thesis by auto
qed

section \<open>Which lines are plan lines\<close>

text \<open>
  Claim C7, as amended.  \<open>parseTapContent\<close> and the folding provider of the same revision
  apply \<open>TEST_PLAN_REGEX\<close> to the line as it is: a line is a plan line exactly when it is
  white space, digits, two dots and digits, with nothing behind the last digit; this is the
  same as the line without its leading white space matching the pattern of the trimmed
  line.  Only the provider with the stack of plans trims the line on both sides first, and
  so also accepts white space behind the plan.  The components themselves: at a line of the
  first shape the loop body of the parser takes the branch of the plan and the loop body of
  the folding provider of the same revision closes the current test and clears it; at any
  other line the parser goes on to the test-result pattern and the output lines, and that
  provider to the test-result pattern and the block delimiter.  The loop body of the
  provider with the stack pops and pushes exactly at the lines of the second shape.
\<close>

theorem C7_plan_recognition:
  "(string_match l TEST_PLAN_REGEX \<noteq> None) =
     (\<exists>ws a b. l = ws @ a @ js ''..'' @ b \<and> (\<forall>c\<in>set ws. is_space c) \<and> a \<noteq> [] \<and>
        (\<forall>c\<in>set a. is_digit c) \<and> b \<noteq> [] \<and> (\<forall>c\<in>set b. is_digit c))
   \<and> (string_match l TEST_PLAN_REGEX \<noteq> None) =
       (string_match (trimStart l) TRIMMED_PLAN_REGEX \<noteq> None)
   \<and> (string_match (trim l) TRIMMED_PLAN_REGEX \<noteq> None) =
       (\<exists>ws a b ws'. l = ws @ a @ js ''..'' @ b @ ws' \<and> (\<forall>c\<in>set ws. is_space c) \<and> a \<noteq> [] \<and>
          (\<forall>c\<in>set a. is_digit c) \<and> b \<noteq> [] \<and> (\<forall>c\<in>set b. is_digit c) \<and>
          (\<forall>c\<in>set ws'. is_space c))
   \<and> ((\<exists>ws a b. l = ws @ a @ js ''..'' @ b \<and> (\<forall>c\<in>set ws. is_space c) \<and> a \<noteq> [] \<and>
          (\<forall>c\<in>set a. is_digit c) \<and> b \<noteq> [] \<and> (\<forall>c\<in>set b. is_digit c)) \<longrightarrow>
        (\<exists>m. string_match l TEST_PLAN_REGEX = Some m \<and>
             parse_line l i st = Inr (plan_line m i st)) \<and>
        (lines ! i = l \<longrightarrow>
           fold_line lines i fs = \<lparr>foldingRanges = close_test i fs, currentTestLine = - 1\<rparr>))
   \<and> (\<not> (\<exists>ws a b. l = ws @ a @ js ''..'' @ b \<and> (\<forall>c\<in>set ws. is_space c) \<and> a \<noteq> [] \<and>
          (\<forall>c\<in>set a. is_digit c) \<and> b \<noteq> [] \<and> (\<forall>c\<in>set b. is_digit c)) \<longrightarrow>
        parse_line l i st =
          (case string_match l TEST_RESULT_REGEX of
             Some testMatch \<Rightarrow> test_line testMatch l i st
           | None \<Rightarrow> Inr (output_line l st)) \<and>
        (lines ! i = l \<longrightarrow>
           fold_line lines i fs =
             (case string_match l TEST_RESULT_REGEX of
                Some testMatch \<Rightarrow> \<lparr>foldingRanges = close_test i fs, currentTestLine = int i\<rparr>
              | None \<Rightarrow>
                  if trim l = js ''---''
                  then fs\<lparr>foldingRanges := yaml_loop lines i (Suc i) (foldingRanges fs)\<rparr>
                  else fs)))
   \<and> (lines ! i = l \<longrightarrow>
        stack_line lines i ss =
          (if \<exists>ws a b ws'. l = ws @ a @ js ''..'' @ b @ ws' \<and> (\<forall>c\<in>set ws. is_space c) \<and> a \<noteq> [] \<and>
                (\<forall>c\<in>set a. is_digit c) \<and> b \<noteq> [] \<and> (\<forall>c\<in>set b. is_digit c) \<and>
                (\<forall>c\<in>set ws'. is_space c)
           then (pop_loop (length l - length (trimStart l)) i ss)
                  \<lparr>stack := stack (pop_loop (length l - length (trimStart l)) i ss) @
                            [\<lparr>startLine = int i,
                              entry_indent = length l - length (trimStart l)\<rparr>]\<rparr>
           else if trim l = js ''---''
                then ss\<lparr>ranges := yaml_loop lines i (Suc i) (ranges ss)\<rparr>
                else ss))"
proof -
  let ?shape = "\<exists>ws a b. l = ws @ a @ js ''..'' @ b \<and> (\<forall>c\<in>set ws. is_space c) \<and> a \<noteq> [] \<and>
        (\<forall>c\<in>set a. is_digit c) \<and> b \<noteq> [] \<and> (\<forall>c\<in>set b. is_digit c)"
  let ?tshape = "\<exists>ws a b ws'. l = ws @ a @ js ''..'' @ b @ ws' \<and> (\<forall>c\<in>set ws. is_space c) \<and> a \<noteq> [] \<and>
          (\<forall>c\<in>set a. is_digit c) \<and> b \<noteq> [] \<and> (\<forall>c\<in>set b. is_digit c) \<and>
          (\<forall>c\<in>set ws'. is_space c)"
  have 1: "(string_match l TEST_PLAN_REGEX \<noteq> None) = ?shape"
    by (rule plan_match_iff)
  have 2: "(string_match l TEST_PLAN_REGEX \<noteq> None) =
       (string_match (trimStart l) TRIMMED_PLAN_REGEX \<noteq> None)"
    by (rule plan_match_trimStart)
  have 3: "(string_match (trim l) TRIMMED_PLAN_REGEX \<noteq> None) = ?tshape"
  proof
    assume "string_match (trim l) TRIMMED_PLAN_REGEX \<noteq> None"
    then have "string_match (trim l) TEST_PLAN_REGEX \<noteq> None" unfolding trimmed_as_plan .
    then obtain ws a b where t: "trim l = ws @ a @ js ''..'' @ b" "\<forall>c\<in>set ws. is_space c"
      "a \<noteq> []" "\<forall>c\<in>set a. is_digit c" "b \<noteq> []" "\<forall>c\<in>set b. is_digit c"
      unfolding plan_match_iff by blast
    from trim_decomp[of l] obtain w w' where l: "l = w @ trim l @ w'"
      "\<forall>c\<in>set w. is_space c" "\<forall>c\<in>set w'. is_space c" by blast
    have "l = (w @ ws) @ a @ js ''..'' @ b @ w'" using l(1) t(1) by simp
    moreover have "\<forall>c\<in>set (w @ ws). is_space c" using l(2) t(2) by auto
    ultimately show ?tshape
      using t(3-6) l(3) by blast
  next
    assume ?tshape
    then obtain ws a b ws' where l: "l = ws @ a @ js ''..'' @ b @ ws'" "\<forall>c\<in>set ws. is_space c"
      "a \<noteq> []" "\<forall>c\<in>set a. is_digit c" "b \<noteq> []" "\<forall>c\<in>set b. is_digit c" "\<forall>c\<in>set ws'. is_space c"
      by blast
    have "trim (ws @ (a @ js ''..'' @ b) @ ws') = a @ js ''..'' @ b"
      using l(2,7) digits_core[OF l(3-6)] by (intro trim_core) auto
    then have t: "trim l = [] @ a @ js ''..'' @ b" using l(1) by simp
    have "string_match ([] @ a @ js ''..'' @ b) TEST_PLAN_REGEX \<noteq> None"
      using plan_match_shape[of "[]" a b] l(3-6) by simp
    then have "string_match (trim l) TEST_PLAN_REGEX \<noteq> None"
      unfolding t .
    then show "string_match (trim l) TRIMMED_PLAN_REGEX \<noteq> None"
      unfolding trimmed_as_plan .
  qed
  have 4: "(\<exists>m. string_match l TEST_PLAN_REGEX = Some m \<and>
             parse_line l i st = Inr (plan_line m i st)) \<and>
        (lines ! i = l \<longrightarrow>
           fold_line lines i fs = \<lparr>foldingRanges = close_test i fs, currentTestLine = - 1\<rparr>)"
    if ?shape
  proof -
    from that have "string_match l TEST_PLAN_REGEX \<noteq> None" by (simp only: 1)
    then obtain m where m: "string_match l TEST_PLAN_REGEX = Some m" by auto
    have p: "parse_line l i st = Inr (plan_line m i st)" using m by (simp add: parse_line_def)
    have "fold_line lines i fs = \<lparr>foldingRanges = close_test i fs, currentTestLine = - 1\<rparr>"
      if "lines ! i = l"
      using m plan_not_test[OF m] that by (simp add: fold_line_def)
    with m p show ?thesis by blast
  qed
  have 5: "parse_line l i st =
          (case string_match l TEST_RESULT_REGEX of
             Some testMatch \<Rightarrow> test_line testMatch l i st
           | None \<Rightarrow> Inr (output_line l st)) \<and>
        (lines ! i = l \<longrightarrow>
           fold_line lines i fs =
             (case string_match l TEST_RESULT_REGEX of
                Some testMatch \<Rightarrow> \<lparr>foldingRanges = close_test i fs, currentTestLine = int i\<rparr>
              | None \<Rightarrow>
                  if trim l = js ''---''
                  then fs\<lparr>foldingRanges := yaml_loop lines i (Suc i) (foldingRanges fs)\<rparr>
                  else fs))"
    if "\<not> ?shape"
  proof -
    have n: "string_match l TEST_PLAN_REGEX = None"
    proof (rule ccontr)
      assume "string_match l TEST_PLAN_REGEX \<noteq> None"
      then have ?shape by (simp only: 1)
      with that show False ..
    qed
    then show ?thesis
      by (auto simp: parse_line_def fold_line_def split: option.splits)
  qed
  have 6: "stack_line lines i ss =
          (if ?tshape
           then (pop_loop (length l - length (trimStart l)) i ss)
                  \<lparr>stack := stack (pop_loop (length l - length (trimStart l)) i ss) @
                            [\<lparr>startLine = int i,
                              entry_indent = length l - length (trimStart l)\<rparr>]\<rparr>
           else if trim l = js ''---''
                then ss\<lparr>ranges := yaml_loop lines i (Suc i) (ranges ss)\<rparr>
                else ss)"
    if l: "lines ! i = l"
  proof (cases "string_match (trim l) TRIMMED_PLAN_REGEX")
    case None
    have "\<not> ?tshape"
    proof
      assume ?tshape
      then have "string_match (trim l) TRIMMED_PLAN_REGEX \<noteq> None" by (simp only: 3)
      with None show False by simp
    qed
    then have r: "(if ?tshape
           then (pop_loop (length l - length (trimStart l)) i ss)
                  \<lparr>stack := stack (pop_loop (length l - length (trimStart l)) i ss) @
                            [\<lparr>startLine = int i,
                              entry_indent = length l - length (trimStart l)\<rparr>]\<rparr>
           else if trim l = js ''---''
                then ss\<lparr>ranges := yaml_loop lines i (Suc i) (ranges ss)\<rparr>
                else ss) =
          (if trim l = js ''---''
                then ss\<lparr>ranges := yaml_loop lines i (Suc i) (ranges ss)\<rparr>
                else ss)"
      by (rule if_not_P)
    have "stack_line lines i ss = (if trim l = js ''---''
                then ss\<lparr>ranges := yaml_loop lines i (Suc i) (ranges ss)\<rparr>
                else ss)"
      using None l by (simp add: stack_line_def Let_def)
    with r show ?thesis by (rule ssubst)
  next
    case (Some m)
    then have "string_match (trim l) TRIMMED_PLAN_REGEX \<noteq> None" by simp
    then have "?tshape" by (simp only: 3)
    then have r: "(if ?tshape
           then (pop_loop (length l - length (trimStart l)) i ss)
                  \<lparr>stack := stack (pop_loop (length l - length (trimStart l)) i ss) @
                            [\<lparr>startLine = int i,
                              entry_indent = length l - length (trimStart l)\<rparr>]\<rparr>
           else if trim l = js ''---''
                then ss\<lparr>ranges := yaml_loop lines i (Suc i) (ranges ss)\<rparr>
                else ss) =
          (pop_loop (length l - length (trimStart l)) i ss)
                  \<lparr>stack := stack (pop_loop (length l - length (trimStart l)) i ss) @
                            [\<lparr>startLine = int i,
                              entry_indent = length l - length (trimStart l)\<rparr>]\<rparr>"
      by (rule if_P)
    have "stack_line lines i ss = (pop_loop (length l - length (trimStart l)) i ss)
                  \<lparr>stack := stack (pop_loop (length l - length (trimStart l)) i ss) @
                            [\<lparr>startLine = int i,
                              entry_indent = length l - length (trimStart l)\<rparr>]\<rparr>"
      using Some l by (simp add: stack_line_def Let_def)
    with r show ?thesis by (rule ssubst)
  qed
  from 1 2 3 4 5 6 show ?thesis by blast
qed

theorem C7_plan_recognition_witness:
  "string_match (js '' 1..2'') TEST_PLAN_REGEX \<noteq> None
   \<and> string_match (trimStart (js '' 1..2'')) TRIMMED_PLAN_REGEX \<noteq> None
   \<and> string_match (trim (js '' 1..2 '')) TRIMMED_PLAN_REGEX \<noteq> None
   \<and> (\<exists>m. string_match (js '' 1..2'') TEST_PLAN_REGEX = Some m \<and>
          parse_line (js '' 1..2'') 0 init_state = Inr (plan_line m 0 init_state))
   \<and> fold_line [js '' 1..2''] 0 \<lparr>foldingRanges = [], currentTestLine = 0\<rparr> =
       \<lparr>foldingRanges = [], currentTestLine = - 1\<rparr>
   \<and> parse_line (js '' 1..2 '') 0 init_state = Inr init_state
   \<and> fold_line [js '' 1..2 ''] 0 \<lparr>foldingRanges = [], currentTestLine = 0\<rparr> =
       \<lparr>foldingRanges = [], currentTestLine = 0\<rparr>
   \<and> stack_line [js '' 1..2 ''] 0 \<lparr>ranges = [], stack = []\<rparr> =
       \<lparr>ranges = [], stack = [\<lparr>startLine = 0, entry_indent = 1\<rparr>]\<rparr>"
proof -
  let ?a = "js '' 1..2''" and ?b = "js '' 1..2 ''"
  let ?fs = "\<lparr>foldingRanges = [], currentTestLine = 0\<rparr>"
  let ?ss = "\<lparr>ranges = [], stack = []\<rparr>"
  have sh: "?a = js '' '' @ js ''1'' @ js ''..'' @ js ''2''"
    "?b = js '' '' @ js ''1'' @ js ''..'' @ js ''2'' @ js '' ''"
    by (simp_all add: js_def)
  have d: "\<forall>c\<in>set (js '' ''). is_space c" "js ''1'' \<noteq> []" "\<forall>c\<in>set (js ''1''). is_digit c"
    "js ''2'' \<noteq> []" "\<forall>c\<in>set (js ''2''). is_digit c"
    by (simp_all add: js_def)
  have sa: "\<exists>ws a b. ?a = ws @ a @ js ''..'' @ b \<and> (\<forall>c\<in>set ws. is_space c) \<and> a \<noteq> [] \<and>
        (\<forall>c\<in>set a. is_digit c) \<and> b \<noteq> [] \<and> (\<forall>c\<in>set b. is_digit c)"
    using sh(1) d by blast
  have tb: "\<exists>ws a b ws'. ?b = ws @ a @ js ''..'' @ b @ ws' \<and> (\<forall>c\<in>set ws. is_space c) \<and> a \<noteq> [] \<and>
          (\<forall>c\<in>set a. is_digit c) \<and> b \<noteq> [] \<and> (\<forall>c\<in>set b. is_digit c) \<and>
          (\<forall>c\<in>set ws'. is_space c)"
    using sh(2) d by blast
  note A = C7_plan_recognition[of ?a 0 init_state "[?a]" ?fs ?ss]
  note B = C7_plan_recognition[of ?b 0 init_state "[?b]" ?fs ?ss]
  have 1: "string_match ?a TEST_PLAN_REGEX \<noteq> None"
    using A[THEN conjunct1] sa by (rule iffD2)
  have 2: "string_match (trimStart ?a) TRIMMED_PLAN_REGEX \<noteq> None"
    using A[THEN conjunct2, THEN conjunct1] 1 by (rule iffD1)
  have 3: "string_match (trim ?b) TRIMMED_PLAN_REGEX \<noteq> None"
    using B[THEN conjunct2, THEN conjunct2, THEN conjunct1] tb by (rule iffD2)
  note A4 = A[THEN conjunct2, THEN conjunct2, THEN conjunct2, THEN conjunct1, THEN mp, OF sa]
  have 4: "\<exists>m. string_match ?a TEST_PLAN_REGEX = Some m \<and>
          parse_line ?a 0 init_state = Inr (plan_line m 0 init_state)"
    using A4[THEN conjunct1] .
  have ct: "close_test 0 ?fs = []" by (simp add: close_test_def)
  have 5: "fold_line [?a] 0 ?fs = \<lparr>foldingRanges = [], currentTestLine = - 1\<rparr>"
    using A4[THEN conjunct2] ct by simp
  have nb: "string_match ?b TEST_PLAN_REGEX = None" by code_simp
  have nsb: "\<not> (\<exists>ws a b. ?b = ws @ a @ js ''..'' @ b \<and> (\<forall>c\<in>set ws. is_space c) \<and> a \<noteq> [] \<and>
        (\<forall>c\<in>set a. is_digit c) \<and> b \<noteq> [] \<and> (\<forall>c\<in>set b. is_digit c))"
    using B[THEN conjunct1] nb by simp
  note B5 = B[THEN conjunct2, THEN conjunct2, THEN conjunct2, THEN conjunct2, THEN conjunct1,
      THEN mp, OF nsb]
  have tn: "string_match ?b TEST_RESULT_REGEX = None" by code_simp
  have tr: "trim ?b \<noteq> js ''---''" by code_simp
  have ol: "output_line ?b init_state = init_state" by (simp add: output_line_def init_state_def)
  have 6: "parse_line ?b 0 init_state = Inr init_state"
    using B5[THEN conjunct1] tn ol by simp
  have 7: "fold_line [?b] 0 ?fs = ?fs"
    using B5[THEN conjunct2] tn tr by simp
  have ind: "length ?b - length (trimStart ?b) = 1" by code_simp
  have pl: "pop_loop 1 0 ?ss = ?ss" by (simp add: pop_loop.simps)
  have "stack_line [?b] 0 ?ss =
          (pop_loop (length ?b - length (trimStart ?b)) 0 ?ss)
                  \<lparr>stack := stack (pop_loop (length ?b - length (trimStart ?b)) 0 ?ss) @
                            [\<lparr>startLine = int 0,
                              entry_indent = length ?b - length (trimStart ?b)\<rparr>]\<rparr>"
    using B[THEN conjunct2, THEN conjunct2, THEN conjunct2, THEN conjunct2, THEN conjunct2] tb
    by (simp only: if_P nth_Cons_0 simp_thms)
  then have 8: "stack_line [?b] 0 ?ss = \<lparr>ranges = [], stack = [\<lparr>startLine = 0, entry_indent = 1\<rparr>]\<rparr>"
    unfolding ind pl by simp
  from 1 2 3 4 5 6 7 8 show ?thesis by (intro conjI)
qed

text \<open>
  The claim as stated fails: the line "1..2 " matches the pattern after trimming, but the
  parser does not take it for a plan line, and the group of the following test is the default
  group "Tests" instead of "Tests 1..2".
\<close>

theorem C7_trailing_space_counterexample:
  "string_match (trim (js ''1..2 '')) TRIMMED_PLAN_REGEX \<noteq> None
   \<and> string_match (js ''1..2 '') TEST_PLAN_REGEX = None
   \<and> map_sum id (map name) (parseTapContent (js ''1..2 \<newline>ok 1'')) = Inr [js ''Tests'']
   \<and> map_sum id (map name) (parseTapContent (js ''1..2\<newline>ok 1'')) = Inr [js ''Tests 1..2'']"
  by code_simp

section \<open>The directives TODO and SKIP\<close>

text \<open>
  Claim C9.  The test object built for a test-result line has \<open>hasTodo\<close> exactly when the whole
  line contains "# TODO" under case-insensitive comparison, and \<open>hasSkip\<close> exactly when it
  contains "# SKIP".  Two lines that differ only in the case of their letters get the same
  flags; in particular "# todo", "# TODO" and "# ToDo" all set \<open>hasTodo\<close>.  The flags are
  independent: each of the four combinations occurs.
\<close>

theorem C9_directive_flags:
  "(string_match l TEST_PLAN_REGEX = None \<and> string_match l TEST_RESULT_REGEX = Some m \<longrightarrow>
      (\<exists>st' t. parse_line l i st = Inr st' \<and> heap st' = heap st @ [t] \<and> fullLine t = l \<and>
         hasTodo t = contains_ci (js ''# TODO'') l \<and> hasSkip t = contains_ci (js ''# SKIP'') l))
   \<and> (map canonicalize l = map canonicalize l' \<longrightarrow>
        regexp_test TODO_REGEX l = regexp_test TODO_REGEX l' \<and>
        regexp_test SKIP_REGEX l = regexp_test SKIP_REGEX l')
   \<and> regexp_test TODO_REGEX (pre @ js ''# todo'' @ post)
   \<and> regexp_test TODO_REGEX (pre @ js ''# TODO'' @ post)
   \<and> regexp_test TODO_REGEX (pre @ js ''# ToDo'' @ post)
   \<and> regexp_test SKIP_REGEX (pre @ js ''# skip'' @ post)
   \<and> map_sum id (map (map (\<lambda>t. (hasTodo t, hasSkip t)) \<circ> tests))
        (parseTapContent (js ''ok 1 - a # skip # Todo\<newline>ok 2 - b # TODO\<newline>ok 3 - c # SKIP\<newline>ok 4 - d #TODO''))
        = Inr [[(True, True), (True, False), (False, True), (False, False)]]"
proof -
  have 1: "\<exists>st' t. parse_line l i st = Inr st' \<and> heap st' = heap st @ [t] \<and> fullLine t = l \<and>
         hasTodo t = contains_ci (js ''# TODO'') l \<and> hasSkip t = contains_ci (js ''# SKIP'') l"
    if a: "string_match l TEST_PLAN_REGEX = None \<and> string_match l TEST_RESULT_REGEX = Some m"
  proof -
    from a have tm: "string_match l TEST_RESULT_REGEX = Some m" by simp
    from test_line_result[OF tm, of i st]
    obtain k t g where t: "fullLine t = l" "hasTodo t = regexp_test TODO_REGEX l"
      "hasSkip t = regexp_test SKIP_REGEX l"
      and eq: "test_line m l i st =
             Inr ((ensure_group i (reset_group (Num k) i st))
                   \<lparr>heap := heap st @ [t],
                    currentTest := Some (length (heap st)),
                    currentGroup := Some (g\<lparr>tests := tests g @ [length (heap st)]\<rparr>),
                    lastTestNumber := Num k\<rparr>)"
      by blast
    have "parse_line l i st = test_line m l i st" using a by (simp add: parse_line_def)
    with eq t show ?thesis by (simp add: directive_tests)
  qed
  have 2: "regexp_test TODO_REGEX l = regexp_test TODO_REGEX l' \<and>
        regexp_test SKIP_REGEX l = regexp_test SKIP_REGEX l'"
    if "map canonicalize l = map canonicalize l'"
    using contains_ci_cong[OF that] by (simp add: directive_tests)
  have 3: "regexp_test TODO_REGEX (pre @ js ''# todo'' @ post)"
    "regexp_test TODO_REGEX (pre @ js ''# TODO'' @ post)"
    "regexp_test TODO_REGEX (pre @ js ''# ToDo'' @ post)"
    "regexp_test SKIP_REGEX (pre @ js ''# skip'' @ post)"
    unfolding directive_tests
    by (rule contains_ci_middle, simp add: js_def)+
  have 4: "map_sum id (map (map (\<lambda>t. (hasTodo t, hasSkip t)) \<circ> tests))
        (parseTapContent (js ''ok 1 - a # skip # Todo\<newline>ok 2 - b # TODO\<newline>ok 3 - c # SKIP\<newline>ok 4 - d #TODO''))
        = Inr [[(True, True), (True, False), (False, True), (False, False)]]"
    by code_simp
  from 1 2 3 4 show ?thesis by blast
qed

theorem C9_directive_flags_witness:
  "(\<exists>st' t. parse_line (js ''not ok 1 - x # todo'') 0 init_state = Inr st' \<and> heap st' = [t] \<and>
      fullLine t = js ''not ok 1 - x # todo'' \<and> hasTodo t \<and> \<not> hasSkip t)
   \<and> regexp_test TODO_REGEX (js ''not ok 1 - x # todo'') = regexp_test TODO_REGEX (js ''not ok 1 - x # TODO'')"
proof -
  let ?l = "js ''not ok 1 - x # todo''"
  have np: "string_match ?l TEST_PLAN_REGEX = None" by code_simp
  have "string_match ?l TEST_RESULT_REGEX \<noteq> None" by code_simp
  then obtain m where m: "string_match ?l TEST_RESULT_REGEX = Some m" by auto
  have c: "contains_ci (js ''# TODO'') ?l" "\<not> contains_ci (js ''# SKIP'') ?l" by code_simp+
  have e: "map canonicalize ?l = map canonicalize (js ''not ok 1 - x # TODO'')" by code_simp
  note c9 = C9_directive_flags[of ?l m 0 init_state "js ''not ok 1 - x # TODO''"]
  from c9[THEN conjunct1, rule_format] np m c
  have 1: "\<exists>st' t. parse_line ?l 0 init_state = Inr st' \<and> heap st' = [t] \<and>
      fullLine t = ?l \<and> hasTodo t \<and> \<not> hasSkip t"
    by (simp add: init_state_def)
  from c9[THEN conjunct2, THEN conjunct1, rule_format, OF e]
  have 2: "regexp_test TODO_REGEX ?l = regexp_test TODO_REGEX (js ''not ok 1 - x # TODO'')"
    by simp
  from 1 2 show ?thesis by blast
qed

section \<open>Folding a test result with the lines below it\<close>

text \<open>
  Claim C6.  In the provider that folds test results: at a test-result or plan line \<open>i\<close>,
  with a current test line \<open>c\<close> open, the range from \<open>c\<close> to \<open>i - 1\<close> is pushed exactly when
  \<open>i > c + 1\<close>; at the end of the input an open current test line \<open>c\<close> gives the range from
  \<open>c\<close> to the last line exactly when the last line is behind \<open>c\<close>.  No range of the result
  starts at a blank line, and no output line that the parser stores is blank.  For two
  test results with one blank line between them the single range runs from the first result
  to the blank line, and the parser stores no output for either test; with no line between
  them there is no range.
\<close>

theorem C6_current_test_folds:
  "((string_match (lines ! i) TEST_RESULT_REGEX \<noteq> None \<or>
     string_match (lines ! i) TEST_PLAN_REGEX \<noteq> None) \<and> 0 \<le> currentTestLine st \<longrightarrow>
      foldingRanges (fold_line lines i st) =
        (if int i > currentTestLine st + 1
         then foldingRanges st @
                [\<lparr>range_start = currentTestLine st, range_end = int i - 1, kind = None\<rparr>]
         else foldingRanges st))
   \<and> (0 \<le> currentTestLine st \<longrightarrow>
        fold_finish lines st =
          (if int (length lines) - 1 > currentTestLine st
           then foldingRanges st @
                  [\<lparr>range_start = currentTestLine st, range_end = int (length lines) - 1, kind = None\<rparr>]
           else foldingRanges st))
   \<and> (\<forall>r\<in>set (fold_lines lines). \<exists>s<length lines. range_start r = int s \<and> trim (lines ! s) \<noteq> [])
   \<and> (parse_lines lines = Inr gs \<longrightarrow>
        (\<forall>g\<in>set gs. \<forall>t\<in>set (tests g). \<forall>l\<in>set (output t). trim l \<noteq> []))
   \<and> provideFoldingRanges (js ''ok 1\<newline>\<newline>ok 2'') = [\<lparr>range_start = 0, range_end = 1, kind = None\<rparr>]
   \<and> provideFoldingRanges (js ''ok 1\<newline>ok 2'') = []
   \<and> map_sum id (map (map output \<circ> tests)) (parseTapContent (js ''ok 1\<newline>\<newline>ok 2'')) = Inr [[[], []]]"
proof -
  have 1: "foldingRanges (fold_line lines i st) =
        (if int i > currentTestLine st + 1
         then foldingRanges st @
                [\<lparr>range_start = currentTestLine st, range_end = int i - 1, kind = None\<rparr>]
         else foldingRanges st)"
    if "(string_match (lines ! i) TEST_RESULT_REGEX \<noteq> None \<or>
     string_match (lines ! i) TEST_PLAN_REGEX \<noteq> None) \<and> 0 \<le> currentTestLine st"
    using that by (auto simp: fold_line_def close_test_def split: option.splits)
  have 2: "fold_finish lines st =
          (if int (length lines) - 1 > currentTestLine st
           then foldingRanges st @
                  [\<lparr>range_start = currentTestLine st, range_end = int (length lines) - 1, kind = None\<rparr>]
           else foldingRanges st)"
    if "0 \<le> currentTestLine st"
    using that by (simp add: fold_finish_def)
  have 3: "\<forall>r\<in>set (fold_lines lines). \<exists>s<length lines. range_start r = int s \<and> trim (lines ! s) \<noteq> []"
    using fold_lines_starts by blast
  have 4: "\<forall>g\<in>set gs. \<forall>t\<in>set (tests g). \<forall>l\<in>set (output t). trim l \<noteq> []"
    if "parse_lines lines = Inr gs"
    using parse_lines_outputs[OF that] by blast
  have 5: "provideFoldingRanges (js ''ok 1\<newline>\<newline>ok 2'') = [\<lparr>range_start = 0, range_end = 1, kind = None\<rparr>]"
    "provideFoldingRanges (js ''ok 1\<newline>ok 2'') = []"
    "map_sum id (map (map output \<circ> tests)) (parseTapContent (js ''ok 1\<newline>\<newline>ok 2'')) = Inr [[[], []]]"
    by code_simp+
  from 1 2 3 4 5 show ?thesis by blast
qed

theorem C6_current_test_folds_witness:
  "foldingRanges (fold_line [js ''ok 1'', js '''', js ''ok 2''] 2
      \<lparr>foldingRanges = [], currentTestLine = 0\<rparr>) = [\<lparr>range_start = 0, range_end = 1, kind = None\<rparr>]
   \<and> fold_finish [js ''ok 1'', js '' x''] \<lparr>foldingRanges = [], currentTestLine = 0\<rparr>
       = [\<lparr>range_start = 0, range_end = 1, kind = None\<rparr>]
   \<and> fold_lines [js ''ok 1'', js '''', js ''ok 2''] = [\<lparr>range_start = 0, range_end = 1, kind = None\<rparr>]
   \<and> trim ([js ''ok 1'', js '''', js ''ok 2''] ! 0) \<noteq> []
   \<and> parse_lines [js ''ok 1'', js '' x'', js '' '', js ''ok 2''] =
       Inr [\<lparr>name = js ''Tests'', group_line = 0,
             tests = [\<lparr>line = 0, indent = 0, passed = True, testNumber = Num 1,
                       description = js ''Test 1'', duration = None, hasTodo = False,
                       hasSkip = False, fullLine = js ''ok 1'', output = [js '' x'']\<rparr>,
                      \<lparr>line = 3, indent = 0, passed = True, testNumber = Num 2,
                       description = js ''Test 2'', duration = None, hasTodo = False,
                       hasSkip = False, fullLine = js ''ok 2'', output = []\<rparr>]\<rparr>]
   \<and> trim (js '' x'') \<noteq> []"
proof -
  let ?L = "[js ''ok 1'', js '''', js ''ok 2'']"
  let ?st = "\<lparr>foldingRanges = [], currentTestLine = 0\<rparr>"
  let ?G = "\<lparr>name = js ''Tests'', group_line = 0,
             tests = [\<lparr>line = 0, indent = 0, passed = True, testNumber = Num 1,
                       description = js ''Test 1'', duration = None, hasTodo = False,
                       hasSkip = False, fullLine = js ''ok 1'', output = [js '' x'']\<rparr>,
                      \<lparr>line = 3, indent = 0, passed = True, testNumber = Num 2,
                       description = js ''Test 2'', duration = None, hasTodo = False,
                       hasSkip = False, fullLine = js ''ok 2'', output = []\<rparr>]\<rparr>"
  have h1: "string_match (?L ! 2) TEST_RESULT_REGEX \<noteq> None" by code_simp
  have 1: "foldingRanges (fold_line ?L 2 ?st) = [\<lparr>range_start = 0, range_end = 1, kind = None\<rparr>]"
    using C6_current_test_folds[of ?L 2 ?st, THEN conjunct1] h1 by simp
  have 2: "fold_finish [js ''ok 1'', js '' x''] ?st = [\<lparr>range_start = 0, range_end = 1, kind = None\<rparr>]"
    using C6_current_test_folds[of "[js ''ok 1'', js '' x'']" _ ?st, THEN conjunct2, THEN conjunct1]
    by simp
  have f: "fold_lines ?L = [\<lparr>range_start = 0, range_end = 1, kind = None\<rparr>]" by code_simp
  have "\<forall>r\<in>set (fold_lines ?L). \<exists>s<length ?L. range_start r = int s \<and> trim (?L ! s) \<noteq> []"
    using C6_current_test_folds[of ?L, THEN conjunct2, THEN conjunct2, THEN conjunct1] .
  then have 3: "trim (?L ! 0) \<noteq> []" unfolding f by simp
  have p: "parse_lines [js ''ok 1'', js '' x'', js '' '', js ''ok 2''] = Inr [?G]" by code_simp
  have "\<forall>g\<in>set [?G]. \<forall>t\<in>set (tests g). \<forall>l\<in>set (output t). trim l \<noteq> []"
    using C6_current_test_folds[of "[js ''ok 1'', js '' x'', js '' '', js ''ok 2'']" _ _ "[?G]",
        THEN conjunct2, THEN conjunct2, THEN conjunct2, THEN conjunct1] p by blast
  then have 4: "trim (js '' x'') \<noteq> []" by simp
  from 1 2 f 3 p 4 show ?thesis by blast
qed

section \<open>Folding a block between \<open>---\<close> and \<open>...\<close>\<close>

text \<open>
  Claim C4.  Let line \<open>i\<close> trim to \<open>---\<close>.  If \<open>j\<close> is the first later line that trims to
  \<open>...\<close>, then in the result of either folding provider the ranges that start at \<open>i\<close> are
  exactly the one range from \<open>i\<close> to \<open>j\<close> of kind region.  If no later line trims to \<open>...\<close>,
  no range of either result starts at \<open>i\<close>, and either result is the one obtained with any
  plain line in the place of line \<open>i\<close>.  The parser reads line \<open>i\<close> as a line of output, whether
  the block is closed or not.
\<close>

theorem C4_yaml_regions:
  "i < length lines \<and> trim (lines ! i) = js ''---'' \<longrightarrow>
     (\<forall>j. i < j \<and> j < length lines \<and> trim (lines ! j) = js ''...'' \<and>
          (\<forall>k. i < k \<and> k < j \<longrightarrow> trim (lines ! k) \<noteq> js ''...'') \<longrightarrow>
        {r \<in> set (fold_lines lines). range_start r = int i} =
          {\<lparr>range_start = int i, range_end = int j, kind = Some Region\<rparr>} \<and>
        {r \<in> set (stack_lines lines). range_start r = int i} =
          {\<lparr>range_start = int i, range_end = int j, kind = Some Region\<rparr>})
   \<and> ((\<forall>j. i < j \<and> j < length lines \<longrightarrow> trim (lines ! j) \<noteq> js ''...'') \<longrightarrow>
        {r \<in> set (fold_lines lines). range_start r = int i} = {} \<and>
        {r \<in> set (stack_lines lines). range_start r = int i} = {} \<and>
        (\<forall>l'. plain_line l' \<longrightarrow>
           fold_lines (lines[i := l']) = fold_lines lines \<and>
           stack_lines (lines[i := l']) = stack_lines lines))
   \<and> (\<forall>st. parse_line (lines ! i) i st = Inr (output_line (lines ! i) st))"
proof (intro impI conjI allI; (elim conjE)?)
  fix j
  assume i: "i < length lines" "trim (lines ! i) = js ''---''"
    and j: "i < j" "j < length lines" "trim (lines ! j) = js ''...''"
    "\<forall>k. i < k \<and> k < j \<longrightarrow> trim (lines ! k) \<noteq> js ''...''"
  have "yaml_loop lines i (Suc i) [] = [] @ [\<lparr>range_start = int i, range_end = int j, kind = Some Region\<rparr>]"
    by (rule yaml_loop_first) (use j in auto)
  then have y: "set (yaml_loop lines i (Suc i) []) = {\<lparr>range_start = int i, range_end = int j, kind = Some Region\<rparr>}"
    by simp
  show "{r \<in> set (fold_lines lines). range_start r = int i} =
          {\<lparr>range_start = int i, range_end = int j, kind = Some Region\<rparr>}"
    unfolding fold_lines_opener[OF i] y ..
  show "{r \<in> set (stack_lines lines). range_start r = int i} =
          {\<lparr>range_start = int i, range_end = int j, kind = Some Region\<rparr>}"
    unfolding stack_lines_opener[OF i] y ..
next
  assume i: "i < length lines" "trim (lines ! i) = js ''---''"
    and n: "\<forall>j. i < j \<and> j < length lines \<longrightarrow> trim (lines ! j) \<noteq> js ''...''"
  have "yaml_loop lines i (Suc i) [] = []"
    by (rule yaml_loop_none) (use n in auto)
  then have y: "set (yaml_loop lines i (Suc i) []) = {}" by simp
  show "{r \<in> set (fold_lines lines). range_start r = int i} = {}"
    unfolding fold_lines_opener[OF i] y ..
  show "{r \<in> set (stack_lines lines). range_start r = int i} = {}"
    unfolding stack_lines_opener[OF i] y ..
  fix l' assume "plain_line l'"
  from unterminated_unaffected[OF i n this]
  show "fold_lines (lines[i := l']) = fold_lines lines"
    "stack_lines (lines[i := l']) = stack_lines lines" .
next
  fix st
  assume "trim (lines ! i) = js ''---''"
  then show "parse_line (lines ! i) i st = Inr (output_line (lines ! i) st)"
    by (rule opener_parse_line)
qed

theorem C4_yaml_regions_witness:
  "{r \<in> set (fold_lines [js ''ok 1'', js ''  ---'', js ''  a: b'', js ''  ...'', js ''...'']).
      range_start r = 1} = {\<lparr>range_start = 1, range_end = 3, kind = Some Region\<rparr>}
   \<and> {r \<in> set (stack_lines [js ''ok 1'', js ''  ---'', js ''  a: b'', js ''  ...'', js ''...'']).
      range_start r = 1} = {\<lparr>range_start = 1, range_end = 3, kind = Some Region\<rparr>}
   \<and> {r \<in> set (fold_lines [js ''1..1'', js ''ok 1'', js ''---'', js ''x'']). range_start r = 2} = {}
   \<and> {r \<in> set (stack_lines [js ''1..1'', js ''ok 1'', js ''---'', js ''x'']). range_start r = 2} = {}
   \<and> fold_lines [js ''1..1'', js ''ok 1'', js ''y'', js ''x''] =
       fold_lines [js ''1..1'', js ''ok 1'', js ''---'', js ''x'']
   \<and> stack_lines [js ''1..1'', js ''ok 1'', js ''y'', js ''x''] =
       stack_lines [js ''1..1'', js ''ok 1'', js ''---'', js ''x'']
   \<and> parse_line (js ''  ---'') 1 init_state = Inr (output_line (js ''  ---'') init_state)"
proof -
  let ?A = "[js ''ok 1'', js ''  ---'', js ''  a: b'', js ''  ...'', js ''...'']"
  let ?B = "[js ''1..1'', js ''ok 1'', js ''---'', js ''x'']"
  have a: "1 < length ?A \<and> trim (?A ! 1) = js ''---''" by code_simp
  have a2: "trim (?A ! 2) \<noteq> js ''...''" by code_simp
  have a3: "trim (?A ! 3) = js ''...''" by code_simp
  have ak: "\<forall>k. 1 < k \<and> k < 3 \<longrightarrow> trim (?A ! k) \<noteq> js ''...''"
  proof (intro allI impI)
    fix k :: nat assume "1 < k \<and> k < 3"
    then have "k = 2" by simp
    then show "trim (?A ! k) \<noteq> js ''...''" using a2 by simp
  qed
  have aj: "(1::nat) < 3 \<and> 3 < length ?A \<and> trim (?A ! 3) = js ''...'' \<and>
            (\<forall>k. 1 < k \<and> k < 3 \<longrightarrow> trim (?A ! k) \<noteq> js ''...'')"
    using a3 ak by simp
  note A = C4_yaml_regions[of 1 ?A, THEN mp, OF a]
  note A1 = A[THEN conjunct1, THEN spec, of 3, THEN mp, OF aj]
  have b: "2 < length ?B \<and> trim (?B ! 2) = js ''---''" by code_simp
  have b3: "trim (?B ! 3) \<noteq> js ''...''" by code_simp
  have bj: "\<forall>j. 2 < j \<and> j < length ?B \<longrightarrow> trim (?B ! j) \<noteq> js ''...''"
  proof (intro allI impI)
    fix j :: nat assume "2 < j \<and> j < length ?B"
    then have "j = 3" by simp
    then show "trim (?B ! j) \<noteq> js ''...''" using b3 by simp
  qed
  have p: "plain_line (js ''y'')" by code_simp
  note B = C4_yaml_regions[of 2 ?B, THEN mp, OF b]
  note B1 = B[THEN conjunct2, THEN conjunct1, THEN mp, OF bj]
  note B2 = B1[THEN conjunct2, THEN conjunct2, THEN spec, of "js ''y''", THEN mp, OF p]
  have u: "?B[2 := js ''y''] = [js ''1..1'', js ''ok 1'', js ''y'', js ''x'']" by simp
  have 7: "parse_line (js ''  ---'') 1 init_state = Inr (output_line (js ''  ---'') init_state)"
    using A[THEN conjunct2, THEN conjunct2, THEN spec, of init_state] by simp
  have 1: "{r \<in> set (fold_lines ?A). range_start r = 1} = {\<lparr>range_start = 1, range_end = 3, kind = Some Region\<rparr>}"
    using A1[THEN conjunct1] by simp
  have 2: "{r \<in> set (stack_lines ?A). range_start r = 1} = {\<lparr>range_start = 1, range_end = 3, kind = Some Region\<rparr>}"
    using A1[THEN conjunct2] by simp
  have 3: "{r \<in> set (fold_lines ?B). range_start r = 2} = {}"
    using B1[THEN conjunct1] by simp
  have 4: "{r \<in> set (stack_lines ?B). range_start r = 2} = {}"
    using B1[THEN conjunct2, THEN conjunct1] by simp
  have 5: "fold_lines [js ''1..1'', js ''ok 1'', js ''y'', js ''x''] = fold_lines ?B"
    using B2[THEN conjunct1] unfolding u .
  have 6: "stack_lines [js ''1..1'', js ''ok 1'', js ''y'', js ''x''] = stack_lines ?B"
    using B2[THEN conjunct2] unfolding u .
  from 1 2 3 4 5 6 7 show ?thesis by (intro conjI)
qed

section \<open>A description that is nothing but a duration clause\<close>

text \<open>
  Claim C10.  Let the cleaned description \<open>d\<close> of a test result be \<open>in\<close> (in any case), white
  space, a decimal number and the unit \<open>ms\<close> or \<open>s\<close> (in any case), with nothing in front.  Then
  the duration pattern does not match \<open>d\<close>, because it wants white space in front of \<open>in\<close>; the
  test object gets no duration, and its description is \<open>d\<close>.  The line \<open>ok 1 in 5s\<close> gives one
  test with the description \<open>in 5s\<close> and no duration.
\<close>

theorem C10_clause_without_text:
  "(map canonicalize w = map canonicalize (js ''in'') \<and>
    ws \<noteq> [] \<and> (\<forall>x\<in>set ws. is_space x) \<and> ip \<noteq> [] \<and> (\<forall>x\<in>set ip. is_digit x) \<and>
    (fr = [] \<or> (\<exists>fp. fr = 0x2E # fp \<and> fp \<noteq> [] \<and> (\<forall>x\<in>set fp. is_digit x))) \<and>
    (map canonicalize u = map canonicalize (js ''ms'') \<or>
     map canonicalize u = map canonicalize (js ''s'')) \<and>
    d = w @ ws @ ip @ fr @ u \<longrightarrow>
      string_match d DURATION_REGEX = None \<and>
      extract_duration d = Inr (None, d) \<and>
      (\<forall>l m i st.
         string_match l TEST_RESULT_REGEX = Some m \<and>
         clean_description (case caps m 4 of None \<Rightarrow> [] | Some r \<Rightarrow> r)
           (parseInt10 (to_str (caps m 3))) = d \<longrightarrow>
         (\<exists>st' t. test_line m l i st = Inr st' \<and> heap st' = heap st @ [t] \<and>
                   currentTest st' = Some (length (heap st)) \<and>
                   duration t = None \<and> description t = d)))
   \<and> parseTapContent (js ''ok 1 in 5s'') =
       Inr [\<lparr>name = js ''Tests'', group_line = 0,
             tests = [\<lparr>line = 0, indent = 0, passed = True, testNumber = Num 1,
                       description = js ''in 5s'', duration = None, hasTodo = False,
                       hasSkip = False, fullLine = js ''ok 1 in 5s'', output = []\<rparr>]\<rparr>]"
proof (intro conjI impI allI; (elim conjE)?)
  assume a: "map canonicalize w = map canonicalize (js ''in'')"
    "\<forall>x\<in>set ws. is_space x" "\<forall>x\<in>set ip. is_digit x"
    "fr = [] \<or> (\<exists>fp. fr = 0x2E # fp \<and> fp \<noteq> [] \<and> (\<forall>x\<in>set fp. is_digit x))"
    "map canonicalize u = map canonicalize (js ''ms'') \<or>
     map canonicalize u = map canonicalize (js ''s'')"
    and d: "d = w @ ws @ ip @ fr @ u"
  show e: "extract_duration d = Inr (None, d)"
    unfolding d by (rule bare_clause[OF a])
  show "string_match d DURATION_REGEX = None"
    using e duration_match_caps[of d]
    by (auto simp: extract_duration_def Let_def split: option.splits)
  fix l m i st
  assume m: "string_match l TEST_RESULT_REGEX = Some m"
    and c: "clean_description (case caps m 4 of None \<Rightarrow> [] | Some r \<Rightarrow> r)
              (parseInt10 (to_str (caps m 3))) = d"
  from test_line_result[OF m, of i st] obtain k t g where
    n: "parseInt10 (to_str (caps m 3)) = Num k"
    and x: "extract_duration (clean_description (case caps m 4 of None \<Rightarrow> [] | Some r \<Rightarrow> r) (Num k))
             = Inr (duration t, description t)"
    and r: "test_line m l i st =
             Inr ((ensure_group i (reset_group (Num k) i st))
                   \<lparr>heap := heap st @ [t],
                    currentTest := Some (length (heap st)),
                    currentGroup := Some (g\<lparr>tests := tests g @ [length (heap st)]\<rparr>),
                    lastTestNumber := Num k\<rparr>)"
    by blast
  let ?st' = "(ensure_group i (reset_group (Num k) i st))
                   \<lparr>heap := heap st @ [t],
                    currentTest := Some (length (heap st)),
                    currentGroup := Some (g\<lparr>tests := tests g @ [length (heap st)]\<rparr>),
                    lastTestNumber := Num k\<rparr>"
  have dt: "duration t = None" "description t = d"
    using x e c unfolding n by simp_all
  have h: "heap ?st' = heap st @ [t]" "currentTest ?st' = Some (length (heap st))"
    by simp_all
  show "\<exists>st' t. test_line m l i st = Inr st' \<and> heap st' = heap st @ [t] \<and>
                   currentTest st' = Some (length (heap st)) \<and>
                   duration t = None \<and> description t = d"
    apply (rule exI[of _ ?st'])
    apply (rule exI[of _ t])
    using r dt h by (intro conjI)
next
  show "parseTapContent (js ''ok 1 in 5s'') =
       Inr [\<lparr>name = js ''Tests'', group_line = 0,
             tests = [\<lparr>line = 0, indent = 0, passed = True, testNumber = Num 1,
                       description = js ''in 5s'', duration = None, hasTodo = False,
                       hasSkip = False, fullLine = js ''ok 1 in 5s'', output = []\<rparr>]\<rparr>]"
    by code_simp
qed

theorem C10_clause_without_text_witness:
  "string_match (js ''in 5s'') DURATION_REGEX = None
   \<and> extract_duration (js ''in 5s'') = Inr (None, js ''in 5s'')
   \<and> (\<exists>st' t. test_line (the (string_match (js ''ok 1 in 5s'') TEST_RESULT_REGEX))
                  (js ''ok 1 in 5s'') 0 init_state = Inr st' \<and>
               heap st' = heap init_state @ [t] \<and>
               currentTest st' = Some (length (heap init_state)) \<and>
               duration t = None \<and> description t = js ''in 5s'')"
proof -
  let ?l = "js ''ok 1 in 5s''"
  let ?m = "the (string_match ?l TEST_RESULT_REGEX)"
  have h: "map canonicalize (js ''in'') = map canonicalize (js ''in'') \<and>
           js '' '' \<noteq> [] \<and> (\<forall>x\<in>set (js '' ''). is_space x) \<and>
           js ''5'' \<noteq> [] \<and> (\<forall>x\<in>set (js ''5''). is_digit x) \<and>
           ([] = [] \<or> (\<exists>fp. [] = 0x2E # fp \<and> fp \<noteq> [] \<and> (\<forall>x\<in>set fp. is_digit x))) \<and>
           (map canonicalize (js ''s'') = map canonicalize (js ''ms'') \<or>
            map canonicalize (js ''s'') = map canonicalize (js ''s'')) \<and>
           js ''in 5s'' = js ''in'' @ js '' '' @ js ''5'' @ [] @ js ''s''"
    by (simp add: js_def)
  note T = C10_clause_without_text[of "js ''in''" "js '' ''" "js ''5''" "[]" "js ''s''" "js ''in 5s''",
      THEN conjunct1, THEN mp, OF h]
  have "string_match ?l TEST_RESULT_REGEX \<noteq> None" by code_simp
  then have m: "string_match ?l TEST_RESULT_REGEX = Some ?m" by simp
  have c: "clean_description (case caps ?m 4 of None \<Rightarrow> [] | Some r \<Rightarrow> r)
             (parseInt10 (to_str (caps ?m 3))) = js ''in 5s''"
    by code_simp
  note R = T[THEN conjunct2, THEN conjunct2, THEN spec, of ?l, THEN spec, of ?m,
      THEN spec, of 0, THEN spec, of init_state, THEN mp, OF conjI[OF m c]]
  from T[THEN conjunct1] T[THEN conjunct2, THEN conjunct1] R show ?thesis by (intro conjI)
qed

end
